theory Spec2Isabelle
  imports Main "HOL-Library.Sublist" "HOL-Library.AList"
begin

section \<open>Text\<close>

text \<open>
  The converter works on Python \<open>str\<close> values. A text is modelled as a \<open>string\<close>; a
  character stands for a code point below 256. The two character classes used by the
  regular expressions of the converter are those of Python's \<open>re\<close> module on that range:
  \<open>\s\<close> is \<open>str.isspace\<close>, and \<open>\w\<close> is alphanumeric or underscore.
\<close>

definition is_space :: "char \<Rightarrow> bool" where
  "is_space c = (of_char c \<in> {9, 10, 11, 12, 13, 28, 29, 30, 31, 32, 133, 160 :: nat})"

definition is_word :: "char \<Rightarrow> bool" where
  "is_word c =
     (let n = (of_char c :: nat) in
        (48 \<le> n \<and> n \<le> 57) \<or> (65 \<le> n \<and> n \<le> 90) \<or> n = 95 \<or> (97 \<le> n \<and> n \<le> 122) \<or>
        n \<in> {170, 178, 179, 181, 185, 186, 188, 189, 190} \<or>
        (192 \<le> n \<and> n \<le> 214) \<or> (216 \<le> n \<and> n \<le> 246) \<or> 248 \<le> n)"

text \<open>\<open>s.lstrip(c)\<close>, \<open>s.rstrip(c)\<close> and \<open>s.startswith((p, q))\<close>.\<close>

definition lstrip :: "char \<Rightarrow> string \<Rightarrow> string" where
  "lstrip c s = dropWhile (\<lambda>x. x = c) s"

definition rstrip :: "char \<Rightarrow> string \<Rightarrow> string" where
  "rstrip c s = rev (dropWhile (\<lambda>x. x = c) (rev s))"

definition startswith_any :: "string list \<Rightarrow> string \<Rightarrow> bool" where
  "startswith_any ps s = list_ex (\<lambda>p. prefix p s) ps"

text \<open>\<open>s.split(sep)\<close> for a separator of one character: the result is never empty.\<close>

fun str_split :: "char \<Rightarrow> string \<Rightarrow> string list" where
  "str_split sep [] = [[]]"
| "str_split sep (c # cs) =
     (if c = sep then [] # str_split sep cs
      else (case str_split sep cs of
              [] \<Rightarrow> [[c]]
            | p # ps \<Rightarrow> (c # p) # ps))"

datatype error = IndexError | ValueError | RequestException | OSError | OtherException

section \<open>The cleanup pass of \<open>html_to_markdown\<close>\<close>

text \<open>
  \<open>html_to_markdown\<close> runs four \<open>re.sub\<close> calls on the renderer's output, in this order.
  Each is modelled as the left-to-right scan \<open>re.sub\<close> performs: at every position the
  pattern either matches, the match is replaced and the scan goes on after it, or the
  character is copied. None of the four patterns matches the empty string, and in none
  of them does backtracking over \<open>\s*\<close> or \<open>\w*\<close> yield a match that the greedy attempt
  misses, since the character after the repetition is never in the repeated class.

  \<open>re.sub(r'\[code\]\s*', '', markdown)\<close>:
\<close>

function sub_code_open :: "string \<Rightarrow> string" where
  "sub_code_open [] = []"
| "sub_code_open (c # cs) =
     (if prefix ''[code]'' (c # cs)
      then sub_code_open (dropWhile is_space (drop 6 (c # cs)))
      else c # sub_code_open cs)"
  by pat_completeness auto
termination
proof (relation "measure length")
  fix c cs
  have "length (dropWhile is_space (drop 6 (c # cs))) \<le> length (drop 6 (c # cs))"
    by (rule length_dropWhile_le)
  also have "\<dots> < length (c # cs)" by simp
  finally show "(dropWhile is_space (drop 6 (c # cs)), c # cs) \<in> measure length" by simp
qed auto

text \<open>\<open>re.sub(r'\s*\[/code\]', '', markdown)\<close>:\<close>

function sub_code_close :: "string \<Rightarrow> string" where
  "sub_code_close [] = []"
| "sub_code_close (c # cs) =
     (if prefix ''[/code]'' (dropWhile is_space (c # cs))
      then sub_code_close (drop 7 (dropWhile is_space (c # cs)))
      else c # sub_code_close cs)"
  by pat_completeness auto
termination
proof (relation "measure length")
  fix c cs
  define r where "r = dropWhile is_space (c # cs)"
  assume "prefix ''[/code]'' (dropWhile is_space (c # cs))"
  then have "prefix ''[/code]'' r" by (simp only: r_def)
  then have "r \<noteq> []" by auto
  then have "length (drop 7 r) < length r" by simp
  also have "\<dots> \<le> length (c # cs)" unfolding r_def by (rule length_dropWhile_le)
  finally show "(drop 7 (dropWhile is_space (c # cs)), c # cs) \<in> measure length"
    by (simp add: r_def)
qed auto

text \<open>
  \<open>re.sub(r'```(\w*)\n\n', r'```\1\n', markdown)\<close>. The pattern matches at a position when
  the text there is three backticks, a run of word characters and two newlines.
\<close>

definition fence_open_match :: "string \<Rightarrow> bool" where
  "fence_open_match s =
     (prefix ''```'' s \<and> prefix ''\<newline>\<newline>'' (dropWhile is_word (drop 3 s)))"

function sub_fence_open :: "string \<Rightarrow> string" where
  "sub_fence_open [] = []"
| "sub_fence_open (c # cs) =
     (if fence_open_match (c # cs)
      then ''```'' @ takeWhile is_word (drop 3 (c # cs)) @ ''\<newline>'' @
           sub_fence_open (drop 2 (dropWhile is_word (drop 3 (c # cs))))
      else c # sub_fence_open cs)"
  by pat_completeness auto
termination
proof (relation "measure length")
  fix c cs
  have "length (drop 2 (dropWhile is_word (drop 3 (c # cs))))
          \<le> length (dropWhile is_word (drop 3 (c # cs)))"
    by simp
  also have "\<dots> \<le> length (drop 3 (c # cs))" by (rule length_dropWhile_le)
  also have "\<dots> < length (c # cs)" by simp
  finally show "(drop 2 (dropWhile is_word (drop 3 (c # cs))), c # cs) \<in> measure length"
    by simp
qed auto

text \<open>\<open>re.sub(r'\n\n```', r'\n```', markdown)\<close>:\<close>

definition fence_close_match :: "string \<Rightarrow> bool" where
  "fence_close_match s = prefix ''\<newline>\<newline>```'' s"

fun sub_fence_close :: "string \<Rightarrow> string" where
  "sub_fence_close [] = []"
| "sub_fence_close (c # cs) =
     (if fence_close_match (c # cs)
      then ''\<newline>```'' @ sub_fence_close (drop 5 (c # cs))
      else c # sub_fence_close cs)"

definition post_process :: "string \<Rightarrow> string" where
  "post_process markdown =
     sub_fence_close (sub_fence_open (sub_code_close (sub_code_open markdown)))"

text \<open>
  \<open>html_to_markdown\<close>: the renderer \<open>HTML2Text.handle\<close>, configured with the body width,
  is a parameter; what it returns goes through the cleanup pass.
\<close>

definition html_to_markdown ::
  "(int \<Rightarrow> string \<Rightarrow> error + string) \<Rightarrow> int \<Rightarrow> string \<Rightarrow> error + string" where
  "html_to_markdown handle width html_content =
     (case handle width html_content of
        Inl e \<Rightarrow> Inl e
      | Inr markdown \<Rightarrow> Inr (post_process markdown))"

section \<open>The content tree\<close>

text \<open>
  A parsed document is a forest of nodes under the document root. An element has a name,
  its attributes (a dictionary from attribute name to string), the list of its classes
  (the parser stores the \<open>class\<close> attribute as a list of strings; the empty list stands for
  an absent attribute), and its children in order. A string of the document is an
  object of the class \<open>NavigableString\<close> or of one of its subclasses: the parser makes a
  comment a \<open>Comment\<close>, a CDATA section a \<open>CData\<close>, and a text inside a \<open>script\<close>,
  \<open>style\<close>, \<open>template\<close>, \<open>rt\<close> or \<open>rp\<close> element a string of the class of that
  container. \<open>NavigableString s\<close> is a string of the class \<open>NavigableString\<close> itself,
  \<open>SpecialString k s\<close> a string of the subclass \<open>k\<close>.
\<close>

datatype string_class =
    CData | Comment | Declaration | Doctype | ProcessingInstruction
  | Script | Stylesheet | TemplateString | RubyTextString | RubyParenthesisString

datatype node =
    Tag string "(string \<times> string) list" "string list" "node list"
  | NavigableString string
  | SpecialString string_class string

type_synonym soup = "node list"

record ConversionConfig =
  remove_elements :: "string list"
  body_width :: int
  code_language_classes :: "string list"
  base_url :: "string option"

definition default_config :: ConversionConfig where
  "default_config =
     \<lparr> remove_elements = [''script'', ''style'', ''nav'', ''footer'', ''iframe'', ''aside''],
       body_width = 0,
       code_language_classes = [''language-'', ''lang-''],
       base_url = None \<rparr>"

subsection \<open>Positions\<close>

text \<open>
  A node of a forest is addressed by the list of child indices leading to it.
  \<open>ancestors_at\<close> lists the elements passed on the way, outermost first.
\<close>

fun node_at :: "soup \<Rightarrow> nat list \<Rightarrow> node option" where
  "node_at ns [] = None"
| "node_at ns [i] = (if i < length ns then Some (ns ! i) else None)"
| "node_at ns (i # j # p) =
     (if i < length ns
      then (case ns ! i of
              Tag n a c ks \<Rightarrow> node_at ks (j # p)
            | NavigableString s \<Rightarrow> None
            | SpecialString k s \<Rightarrow> None)
      else None)"

fun ancestors_at :: "soup \<Rightarrow> nat list \<Rightarrow> node list" where
  "ancestors_at ns [] = []"
| "ancestors_at ns [i] = []"
| "ancestors_at ns (i # j # p) =
     (if i < length ns
      then (case ns ! i of
              Tag n a c ks \<Rightarrow> Tag n a c ks # ancestors_at ks (j # p)
            | NavigableString s \<Rightarrow> []
            | SpecialString k s \<Rightarrow> [])
      else [])"

subsection \<open>Removing unwanted elements\<close>

text \<open>
  \<open>for element in soup.find_all(self.config.remove_elements): element.decompose()\<close>.
  \<open>find_all\<close> with a list of names selects the elements whose name is in the list,
  never a string; decomposing an element destroys it with everything below it, and
  decomposing an element that is already destroyed changes nothing. What \<open>find_all\<close> selects for an
  empty list of names depends on the version of the library; the statements about the
  removal are about a list that is not empty, as every list from the command line is.
\<close>

fun decompose_all :: "string list \<Rightarrow> soup \<Rightarrow> soup" where
  "decompose_all names [] = []"
| "decompose_all names (NavigableString s # ns) = NavigableString s # decompose_all names ns"
| "decompose_all names (Tag n a c ks # ns) =
     (if n \<in> set names then decompose_all names ns
      else Tag n a c (decompose_all names ks) # decompose_all names ns)"
| "decompose_all names (SpecialString k s # ns) = SpecialString k s # decompose_all names ns"

subsection \<open>Code blocks\<close>

text \<open>\<open>tag.find(name)\<close>: the first descendant element of that name, in document order.\<close>

fun find_tag :: "string \<Rightarrow> soup \<Rightarrow> node option" where
  "find_tag nm [] = None"
| "find_tag nm (NavigableString s # ns) = find_tag nm ns"
| "find_tag nm (Tag n a c ks # ns) =
     (if n = nm then Some (Tag n a c ks)
      else (case find_tag nm ks of Some r \<Rightarrow> Some r | None \<Rightarrow> find_tag nm ns))"
| "find_tag nm (SpecialString k s # ns) = find_tag nm ns"

text \<open>
  \<open>get_text()\<close>, called on an element that is not itself a container of special strings
  (a code element is not one): the strings below the element whose class is exactly
  \<open>NavigableString\<close> or \<open>CData\<close>, concatenated in document order. The strings of the
  other classes are left out.
\<close>

fun get_text :: "soup \<Rightarrow> string" where
  "get_text [] = []"
| "get_text (NavigableString s # ns) = s @ get_text ns"
| "get_text (Tag n a c ks # ns) = get_text ks @ get_text ns"
| "get_text (SpecialString k s # ns) = (if k = CData then s else []) @ get_text ns"

text \<open>
  \<open>code.get_text()\<close> and \<open>code.get('class')\<close> for what \<open>find('code')\<close> returned, which is
  an element.
\<close>

fun node_text :: "node \<Rightarrow> string" where
  "node_text (NavigableString s) = s"
| "node_text (Tag n a c ks) = get_text ks"
| "node_text (SpecialString k s) = s"

fun node_classes :: "node \<Rightarrow> string list" where
  "node_classes (NavigableString s) = []"
| "node_classes (Tag n a c ks) = c"
| "node_classes (SpecialString k s) = []"

text \<open>
  The loop over the classes of the code element: the first class that starts with any
  of the prefixes gives the language, \<open>cls.split('-')[1]\<close>, an \<open>IndexError\<close> when the
  class has no hyphen. Without such a class the language is empty.
\<close>

fun find_language :: "string list \<Rightarrow> string list \<Rightarrow> error + string" where
  "find_language prefs [] = Inr []"
| "find_language prefs (cls # rest) =
     (if startswith_any prefs cls
      then (case str_split CHR ''-'' cls of
              x # language # xs \<Rightarrow> Inr language
            | _ \<Rightarrow> Inl IndexError)
      else find_language prefs rest)"

definition fenced :: "string \<Rightarrow> string \<Rightarrow> string" where
  "fenced language code_text = ''```'' @ language @ ''\<newline>'' @ code_text @ ''\<newline>```''"

text \<open>The body of the loop for a \<open>pre\<close> element in which \<open>find('code')\<close> found \<open>code\<close>.\<close>

definition new_tag :: "ConversionConfig \<Rightarrow> node \<Rightarrow> error + node" where
  "new_tag cfg code =
     (case find_language (code_language_classes cfg) (node_classes code) of
        Inl e \<Rightarrow> Inl e
      | Inr language \<Rightarrow>
          Inr (Tag ''pre'' [] [] [NavigableString (fenced language (node_text code))]))"

text \<open>
  \<open>_process_code_blocks\<close> visits every \<open>pre\<close> element of the document, in document
  order; the list of them is computed before the first replacement. A \<open>pre\<close> element
  with a code element below it is replaced by the new tag. The \<open>pre\<close> elements inside a
  replaced block are visited all the same: their replacement happens in the detached
  block and does not show in the document, but an \<open>IndexError\<close> raised there ends the
  whole pass as any other does.
\<close>

fun process_code_blocks :: "ConversionConfig \<Rightarrow> soup \<Rightarrow> error + soup" where
  "process_code_blocks cfg [] = Inr []"
| "process_code_blocks cfg (NavigableString s # ns) =
     (case process_code_blocks cfg ns of
        Inl e \<Rightarrow> Inl e
      | Inr ns' \<Rightarrow> Inr (NavigableString s # ns'))"
| "process_code_blocks cfg (Tag n a c ks # ns) =
     (case (if n = ''pre'' then find_tag ''code'' ks else None) of
        Some code \<Rightarrow>
          (case new_tag cfg code of
             Inl e \<Rightarrow> Inl e
           | Inr new \<Rightarrow>
               (case process_code_blocks cfg ks of
                  Inl e \<Rightarrow> Inl e
                | Inr detached \<Rightarrow>
                    (case process_code_blocks cfg ns of
                       Inl e \<Rightarrow> Inl e
                     | Inr ns' \<Rightarrow> Inr (new # ns'))))
      | None \<Rightarrow>
          (case process_code_blocks cfg ks of
             Inl e \<Rightarrow> Inl e
           | Inr ks' \<Rightarrow>
               (case process_code_blocks cfg ns of
                  Inl e \<Rightarrow> Inl e
                | Inr ns' \<Rightarrow> Inr (Tag n a c ks' # ns'))))"
| "process_code_blocks cfg (SpecialString k s # ns) =
     (case process_code_blocks cfg ns of
        Inl e \<Rightarrow> Inl e
      | Inr ns' \<Rightarrow> Inr (SpecialString k s # ns'))"

subsection \<open>Relative URLs\<close>

definition absolute_url :: "string \<Rightarrow> string \<Rightarrow> string" where
  "absolute_url base ref = rstrip CHR ''/'' base @ ''/'' @ lstrip CHR ''/'' ref"

definition rebase_attr :: "string \<Rightarrow> string \<Rightarrow> (string \<times> string) list \<Rightarrow> (string \<times> string) list" where
  "rebase_attr base key a =
     (case map_of a key of
        None \<Rightarrow> a
      | Some v \<Rightarrow>
          (if \<not> startswith_any [''http://'', ''https://''] v
           then AList.update key (absolute_url base v) a
           else a))"

definition convert_attrs :: "string \<Rightarrow> string \<Rightarrow> (string \<times> string) list \<Rightarrow> (string \<times> string) list" where
  "convert_attrs base n a =
     (if n = ''a'' \<and> map_of a ''href'' \<noteq> None then rebase_attr base ''href'' a
      else if n = ''img'' \<and> map_of a ''src'' \<noteq> None then rebase_attr base ''src'' a
      else a)"

text \<open>
  \<open>_convert_relative_urls\<close>: the loop over \<open>find_all(['a', 'img'])\<close> changes attribute
  values only, so it is a map over the tree; on the other elements \<open>convert_attrs\<close>
  is the identity.
\<close>

fun convert_relative_urls :: "string \<Rightarrow> soup \<Rightarrow> soup" where
  "convert_relative_urls base [] = []"
| "convert_relative_urls base (NavigableString s # ns) =
     NavigableString s # convert_relative_urls base ns"
| "convert_relative_urls base (Tag n a c ks # ns) =
     Tag n (convert_attrs base n a) c (convert_relative_urls base ks)
       # convert_relative_urls base ns"
| "convert_relative_urls base (SpecialString k s # ns) =
     SpecialString k s # convert_relative_urls base ns"

subsection \<open>\<open>clean_html\<close>\<close>

text \<open>\<open>url or self.config.base_url\<close>: the URL when it is given and not empty.\<close>

definition truthy :: "string option \<Rightarrow> bool" where
  "truthy x = (case x of None \<Rightarrow> False | Some s \<Rightarrow> s \<noteq> [])"

definition resolution_base :: "ConversionConfig \<Rightarrow> string option \<Rightarrow> string option" where
  "resolution_base cfg url = (if truthy url then url else base_url cfg)"

definition clean_soup :: "ConversionConfig \<Rightarrow> string option \<Rightarrow> soup \<Rightarrow> error + soup" where
  "clean_soup cfg url soup =
     (case process_code_blocks cfg (decompose_all (remove_elements cfg) soup) of
        Inl e \<Rightarrow> Inl e
      | Inr soup' \<Rightarrow>
          (case resolution_base cfg url of
             None \<Rightarrow> Inr soup'
           | Some b \<Rightarrow> Inr (if b \<noteq> [] then convert_relative_urls b soup' else soup')))"

text \<open>
  Readability extraction with the parse of its summary, and the serialisation
  \<open>str(soup)\<close>, belong to the libraries; they are parameters.
\<close>

definition clean_html ::
  "(string \<Rightarrow> error + soup) \<Rightarrow> (soup \<Rightarrow> string) \<Rightarrow> ConversionConfig \<Rightarrow> string \<Rightarrow> string option
     \<Rightarrow> error + string" where
  "clean_html parse render cfg html_content url =
     (case parse html_content of
        Inl e \<Rightarrow> Inl e
      | Inr soup \<Rightarrow>
          (case clean_soup cfg url soup of
             Inl e \<Rightarrow> Inl e
           | Inr soup' \<Rightarrow> Inr (render soup')))"

section \<open>File names\<close>

text \<open>
  \<open>urllib.parse.urlparse\<close>, as far as the converter reads its result: the scheme, the
  network location and the path. The model follows the steps of the library of
  CPython 3.11: leading control characters and spaces are stripped, tabs and line breaks
  removed, a scheme is split off at the first colon when everything before it is a
  scheme, a network location follows a leading \<open>//\<close> up to the next \<open>/\<close>, \<open>?\<close> or \<open>#\<close>,
  then fragment, query and parameters are cut off the path. A network location with
  one of the two brackets only is a \<open>ValueError\<close>; with both, the text between the first
  \<open>[\<close> and the next \<open>]\<close> goes through \<open>_check_bracketed_host\<close>, which raises a \<open>ValueError\<close>
  unless it is an IPv6 or IPvFuture address. Two things are left to a record of the
  library, since its versions differ in them: the list \<open>uses_params\<close> of the schemes
  that have parameters, and that check of a bracketed host, which rests on the module
  \<open>ipaddress\<close> and is absent from the older versions. The last check of the library,
  \<open>_checknetloc\<close>, looks for a character whose NFKC normalisation contains one of
  \<open>/?#@:\<close>; there is none among the code points below 256.
\<close>

record urllib =
  uses_params :: "string list"
  check_bracketed_host :: "string \<Rightarrow> bool"

text \<open>The library of CPython 3.11, for a given check of a bracketed host.\<close>

definition urllib_3_11 :: "(string \<Rightarrow> bool) \<Rightarrow> urllib" where
  "urllib_3_11 check =
     \<lparr> uses_params =
         [[], ''ftp'', ''hdl'', ''prospero'', ''http'', ''imap'', ''https'', ''shttp'', ''rtsp'',
          ''rtsps'', ''rtspu'', ''sip'', ''sips'', ''mms'', ''sftp'', ''tel''],
       check_bracketed_host = check \<rparr>"

record ParseResult =
  scheme :: string
  netloc :: string
  path :: string

definition ascii_alpha :: "char \<Rightarrow> bool" where
  "ascii_alpha c =
     (let n = (of_char c :: nat) in (65 \<le> n \<and> n \<le> 90) \<or> (97 \<le> n \<and> n \<le> 122))"

definition scheme_char :: "char \<Rightarrow> bool" where
  "scheme_char c =
     (let n = (of_char c :: nat) in
        ascii_alpha c \<or> (48 \<le> n \<and> n \<le> 57) \<or> c = CHR ''+'' \<or> c = CHR ''-'' \<or> c = CHR ''.'')"

definition ascii_lower :: "char \<Rightarrow> char" where
  "ascii_lower c =
     (let n = (of_char c :: nat) in if 65 \<le> n \<and> n \<le> 90 then char_of (n + 32) else c)"

definition netloc_char :: "char \<Rightarrow> bool" where
  "netloc_char c = (c \<noteq> CHR ''/'' \<and> c \<noteq> CHR ''?'' \<and> c \<noteq> CHR ''#'')"

text \<open>\<open>_splitparams(url)[0]\<close>: the parameters are cut off the last segment of the path.\<close>

definition splitparams :: "string \<Rightarrow> string" where
  "splitparams url =
     (if CHR ''/'' \<in> set url
      then (let seg = rev (takeWhile (\<lambda>c. c \<noteq> CHR ''/'') (rev url));
                front = rev (dropWhile (\<lambda>c. c \<noteq> CHR ''/'') (rev url))
            in if CHR '';'' \<in> set seg then front @ takeWhile (\<lambda>c. c \<noteq> CHR '';'') seg else url)
      else takeWhile (\<lambda>c. c \<noteq> CHR '';'') url)"

text \<open>\<open>netloc.partition('[')[2].partition(']')[0]\<close>:\<close>

definition bracketed_host :: "string \<Rightarrow> string" where
  "bracketed_host loc =
     takeWhile (\<lambda>c. c \<noteq> CHR '']'') (drop 1 (dropWhile (\<lambda>c. c \<noteq> CHR ''['') loc))"

definition urlparse :: "urllib \<Rightarrow> string \<Rightarrow> error + ParseResult" where
  "urlparse lib url =
     (let url1 = filter (\<lambda>c. c \<notin> {CHR 0x09, CHR 0x0D, CHR 0x0A})
                   (dropWhile (\<lambda>c. (of_char c :: nat) \<le> 32) url);
          front = takeWhile (\<lambda>c. c \<noteq> CHR '':'') url1;
          has_scheme = (CHR '':'' \<in> set url1 \<and> front \<noteq> [] \<and> ascii_alpha (hd url1)
                          \<and> list_all scheme_char front);
          sch = (if has_scheme then map ascii_lower front else []);
          url2 = (if has_scheme then drop (length front + 1) url1 else url1);
          has_netloc = prefix ''//'' url2;
          loc = (if has_netloc then takeWhile netloc_char (drop 2 url2) else []);
          url3 = (if has_netloc then dropWhile netloc_char (drop 2 url2) else url2);
          url4 = takeWhile (\<lambda>c. c \<noteq> CHR ''?'') (takeWhile (\<lambda>c. c \<noteq> CHR ''#'') url3);
          url5 = (if sch \<in> set (uses_params lib) \<and> CHR '';'' \<in> set url4
                  then splitparams url4 else url4)
      in if (CHR ''['' \<in> set loc) \<noteq> (CHR '']'' \<in> set loc) then Inl ValueError
         else if CHR ''['' \<in> set loc \<and> CHR '']'' \<in> set loc
                 \<and> \<not> check_bracketed_host lib (bracketed_host loc) then Inl ValueError
         else Inr \<lparr> scheme = sch, netloc = loc, path = url5 \<rparr>)"

text \<open>
  \<open>Path(p).name\<close> on a POSIX system: the last component of the path, where empty
  components and \<open>.\<close> do not count; empty when there is none.
\<close>

definition path_name :: "string \<Rightarrow> string" where
  "path_name p =
     (let parts = filter (\<lambda>s. s \<noteq> [] \<and> s \<noteq> ''.'') (str_split CHR ''/'' p)
      in if parts = [] then [] else last parts)"

text \<open>\<open>re.sub(r'[^\w\-_.]', '_', filename)\<close>:\<close>

definition clean_filename :: "string \<Rightarrow> string" where
  "clean_filename s =
     map (\<lambda>c. if is_word c \<or> c = CHR ''-'' \<or> c = CHR ''_'' \<or> c = CHR ''.'' then c else CHR ''_'') s"

definition generate_filename :: "urllib \<Rightarrow> string \<Rightarrow> error + string" where
  "generate_filename lib url =
     (case urlparse lib url of
        Inl e \<Rightarrow> Inl e
      | Inr parsed \<Rightarrow>
          (let filename = path_name (path parsed);
               path_parts = filter (\<lambda>p. p \<noteq> []) (str_split CHR ''/'' (path parsed));
               filename1 = (if filename = []
                            then (if path_parts \<noteq> [] then last path_parts else netloc parsed)
                            else filename);
               filename2 = clean_filename filename1
           in Inr (if \<not> suffix ''.md'' filename2
                   then rstrip CHR ''.'' filename2 @ ''.md''
                   else filename2)))"

text \<open>
  The second copy of the module names the file with \<open>_get_safe_filename\<close>. It decodes
  the path with \<open>urllib.parse.unquote\<close>, a parameter here, and drops the extension with
  \<open>os.path.splitext\<close>: the part before the last dot of the last component, unless only
  dots precede that dot.
\<close>

definition splitext_root :: "string \<Rightarrow> string" where
  "splitext_root p =
     (let base = rev (takeWhile (\<lambda>c. c \<noteq> CHR ''/'') (rev p));
          front = rev (dropWhile (\<lambda>c. c \<noteq> CHR ''/'') (rev p));
          stem = rev (tl (dropWhile (\<lambda>c. c \<noteq> CHR ''.'') (rev base)))
      in if CHR ''.'' \<in> set base \<and> list_ex (\<lambda>c. c \<noteq> CHR ''.'') stem then front @ stem else p)"

definition get_safe_filename :: "urllib \<Rightarrow> (string \<Rightarrow> string) \<Rightarrow> string \<Rightarrow> error + string" where
  "get_safe_filename lib unquote url =
     (case urlparse lib url of
        Inl e \<Rightarrow> Inl e
      | Inr parsed \<Rightarrow>
          (let clean_path = lstrip CHR ''/'' (rstrip CHR ''/'' (unquote (path parsed)));
               parts = filter (\<lambda>p. p \<noteq> []) (str_split CHR ''/'' clean_path);
               base_name = (if path parsed \<noteq> [] \<and> path parsed \<noteq> ''/''
                            then (if parts \<noteq> [] then last parts else netloc parsed)
                            else netloc parsed);
               safe_name = clean_filename (splitext_root base_name)
           in Inr (safe_name @ ''.md'')))"

section \<open>\<open>convert\<close>\<close>

text \<open>
  The collaborators of \<open>convert\<close>: the fetch of the page, the libraries behind
  \<open>clean_html\<close>, \<open>html_to_markdown\<close> and \<open>generate_filename\<close>, the resolution of the
  output directory, and the two file-system operations. \<open>'w\<close> is the state of the file
  system; only \<open>mkdir\<close> and \<open>write_text\<close> take and return it.
\<close>

record 'w environment =
  url_library :: urllib
  fetch_url :: "string \<Rightarrow> error + string"
  parse :: "string \<Rightarrow> error + soup"
  render :: "soup \<Rightarrow> string"
  handle :: "int \<Rightarrow> string \<Rightarrow> error + string"
  get_default_output_dir :: "string \<Rightarrow> error + string"
  joinpath :: "string \<Rightarrow> string \<Rightarrow> string"
  mkdir :: "string \<Rightarrow> 'w \<Rightarrow> error option \<times> 'w"
  write_text :: "string \<Rightarrow> string \<Rightarrow> 'w \<Rightarrow> error option \<times> 'w"

text \<open>
  \<open>convert\<close> returns the path of the written file or the exception it re-raises,
  together with the file system it leaves. \<open>save\<close> is its last part, from the creation
  of the output directory on.
\<close>

definition save ::
  "'w environment \<Rightarrow> string \<Rightarrow> string \<Rightarrow> string \<Rightarrow> 'w \<Rightarrow> (error + string) \<times> 'w" where
  "save env url output_path markdown_content w =
     (case mkdir env output_path w of
        (Some e, w1) \<Rightarrow> (Inl e, w1)
      | (None, w1) \<Rightarrow>
          (case generate_filename (url_library env) url of
             Inl e \<Rightarrow> (Inl e, w1)
           | Inr filename \<Rightarrow>
               (let output_file = joinpath env output_path filename
                in case write_text env output_file markdown_content w1 of
                     (Some e, w2) \<Rightarrow> (Inl e, w2)
                   | (None, w2) \<Rightarrow> (Inr output_file, w2))))"

definition convert ::
  "'w environment \<Rightarrow> ConversionConfig \<Rightarrow> string \<Rightarrow> string option \<Rightarrow> 'w \<Rightarrow> (error + string) \<times> 'w" where
  "convert env cfg url output_dir w =
     (case fetch_url env url of
        Inl e \<Rightarrow> (Inl e, w)
      | Inr html_content \<Rightarrow>
          (case clean_html (parse env) (render env) cfg html_content (Some url) of
             Inl e \<Rightarrow> (Inl e, w)
           | Inr cleaned_html \<Rightarrow>
               (case html_to_markdown (handle env) (body_width cfg) cleaned_html of
                  Inl e \<Rightarrow> (Inl e, w)
                | Inr markdown_content \<Rightarrow>
                    (case (case output_dir of
                             None \<Rightarrow> get_default_output_dir env url
                           | Some d \<Rightarrow> if d \<noteq> [] then Inr d else get_default_output_dir env url) of
                       Inl e \<Rightarrow> (Inl e, w)
                     | Inr output_path \<Rightarrow> save env url output_path markdown_content w))))"

text \<open>
  An environment for examples: the file system is the list of the files written, the
  last one first; the fetch, the parser and the renderer are given, every directory
  can be created, and every write succeeds. The library of URLs is that of
  CPython 3.11; no URL of the examples has a bracketed host, and every such host passes
  the check.
\<close>

definition recording_environment ::
  "(string \<Rightarrow> error + string) \<Rightarrow> (string \<Rightarrow> error + soup) \<Rightarrow> (int \<Rightarrow> string \<Rightarrow> error + string)
     \<Rightarrow> (string \<times> string) list environment" where
  "recording_environment f p h =
     \<lparr> url_library = urllib_3_11 (\<lambda>host. True),
       fetch_url = f, parse = p, render = get_text, handle = h,
       get_default_output_dir = (\<lambda>url. Inr ''out''),
       joinpath = (\<lambda>dir file. dir @ ''/'' @ file),
       mkdir = (\<lambda>dir w. (None, w)),
       write_text = (\<lambda>file content w. (None, (file, content) # w)) \<rparr>"

section \<open>Notions used in the statements\<close>

text \<open>
  The node itself without its children, and the listing of a forest in document order:
  every node with the names of the elements around it, outermost first, its own name
  last when it is an element.
\<close>

datatype item =
    Element string "(string \<times> string) list" "string list"
  | Text string
  | SpecialText string_class string

fun walk :: "string list \<Rightarrow> soup \<Rightarrow> (string list \<times> item) list" where
  "walk anc [] = []"
| "walk anc (NavigableString s # ns) = (anc, Text s) # walk anc ns"
| "walk anc (Tag n a c ks # ns) =
     (anc @ [n], Element n a c) # walk (anc @ [n]) ks @ walk anc ns"
| "walk anc (SpecialString k s # ns) = (anc, SpecialText k s) # walk anc ns"



text \<open>A code block is a \<open>pre\<close> element with a code element below it.\<close>

fun code_block :: "node \<Rightarrow> bool" where
  "code_block (NavigableString s) = False"
| "code_block (Tag n a c ks) = (n = ''pre'' \<and> find_tag ''code'' ks \<noteq> None)"
| "code_block (SpecialString k s) = False"

fun has_code_block :: "soup \<Rightarrow> bool" where
  "has_code_block [] = False"
| "has_code_block (NavigableString s # ns) = has_code_block ns"
| "has_code_block (Tag n a c ks # ns) =
     (code_block (Tag n a c ks) \<or> has_code_block ks \<or> has_code_block ns)"
| "has_code_block (SpecialString k s # ns) = has_code_block ns"

text \<open>
  A pattern occurs in a text when it matches at one of its positions. \<open>occurs m s\<close>
  looks at what stands from the position on, \<open>occurs_after m a s\<close> also at what stands
  before it, \<open>a\<close> being the text before \<open>s\<close>.
\<close>

fun occurs :: "(string \<Rightarrow> bool) \<Rightarrow> string \<Rightarrow> bool" where
  "occurs m [] = m []"
| "occurs m (c # cs) = (m (c # cs) \<or> occurs m cs)"

fun occurs_after :: "(string \<Rightarrow> string \<Rightarrow> bool) \<Rightarrow> string \<Rightarrow> string \<Rightarrow> bool" where
  "occurs_after m a [] = m a []"
| "occurs_after m a (c # cs) = (m a (c # cs) \<or> occurs_after m (a @ [c]) cs)"

text \<open>
  Two blank lines or more next to a fence, of which the pass removes one line break
  only. After an opening fence with its language: three line breaks, unless a fence
  follows them at once, as in an empty block. Before a fence: three line breaks, unless
  they follow an opening fence with its language, as in an empty block again.
\<close>

definition gap_after_opening :: "string \<Rightarrow> bool" where
  "gap_after_opening u =
     (prefix ''```'' u \<and> prefix ''\<newline>\<newline>\<newline>'' (dropWhile is_word (drop 3 u))
        \<and> \<not> prefix ''\<newline>\<newline>\<newline>```'' (dropWhile is_word (drop 3 u)))"

definition after_opening_fence :: "string \<Rightarrow> bool" where
  "after_opening_fence a = suffix ''```'' (rev (dropWhile is_word (rev a)))"

definition gap_before_closing :: "string \<Rightarrow> string \<Rightarrow> bool" where
  "gap_before_closing a u = (prefix ''\<newline>\<newline>\<newline>```'' u \<and> \<not> after_opening_fence a)"

text \<open>
  The choice of the language class as the specification words it: the prefixes are
  tried in their configured order, and the first prefix that some class starts with
  decides, whatever the position of that class.
\<close>

fun spec_find_language :: "string list \<Rightarrow> string list \<Rightarrow> error + string" where
  "spec_find_language [] classes = Inr []"
| "spec_find_language (p # ps) classes =
     (case find (prefix p) classes of
        Some cls \<Rightarrow>
          (case str_split CHR ''-'' cls of
             x # language # xs \<Rightarrow> Inr language
           | _ \<Rightarrow> Inl IndexError)
      | None \<Rightarrow> spec_find_language ps classes)"

section \<open>The language of a code block\<close>

text \<open>
  C3. The specification takes the language to be what follows the first hyphen of the
  class, so that \<open>language-objective-c\<close> names the language \<open>objective-c\<close>. The code takes
  the second of the pieces between hyphens: on that class the language is \<open>objective\<close>,
  and this is what the fence of the block carries.
\<close>

theorem language_of_hyphenated_class:
  "find_language (code_language_classes default_config) [''language-objective-c''] = Inr ''objective''
   \<and> process_code_blocks default_config
         [Tag ''pre'' [] [] [Tag ''code'' [] [''language-objective-c''] [NavigableString ''x'']]]
       = Inr [Tag ''pre'' [] [] [NavigableString ''```objective\<newline>x\<newline>```'']]"
  by code_simp

lemma find_language_find:
  "find_language prefs classes =
     (case find (startswith_any prefs) classes of
        None \<Rightarrow> Inr []
      | Some cls \<Rightarrow>
          (case str_split CHR ''-'' cls of
             x # language # xs \<Rightarrow> Inr language
           | _ \<Rightarrow> Inl IndexError))"
  by (induction classes) simp_all

lemma startswith_any_set: "set ps = set qs \<Longrightarrow> startswith_any ps = startswith_any qs"
  by (auto simp: startswith_any_def list_ex_iff fun_eq_iff)

text \<open>
  C4, as stated, fails: with the prefixes \<open>language-\<close>, \<open>lang-\<close> and the classes
  \<open>lang-js\<close>, \<open>language-python\<close> the code chooses \<open>js\<close>, the language of the first class,
  where the order of the prefixes would choose \<open>python\<close>.
\<close>

theorem prefix_order_counterexample:
  "find_language [''language-'', ''lang-''] [''lang-js'', ''language-python''] = Inr ''js''
   \<and> spec_find_language [''language-'', ''lang-''] [''lang-js'', ''language-python''] = Inr ''python''"
  by code_simp

text \<open>
  C4, amended: the class that decides is the first class of the class list that starts
  with any of the recognised prefixes; the order of the prefixes has no influence.
\<close>

theorem find_language_first_class:
  "find_language prefs classes =
     (case find (startswith_any prefs) classes of
        None \<Rightarrow> Inr []
      | Some cls \<Rightarrow>
          (case str_split CHR ''-'' cls of
             x # language # xs \<Rightarrow> Inr language
           | _ \<Rightarrow> Inl IndexError))
   \<and> (set prefs' = set prefs \<longrightarrow> find_language prefs' classes = find_language prefs classes)"
  by (simp add: find_language_find startswith_any_set [of prefs' prefs])

theorem find_language_first_class_witness:
  "find_language [''lang-'', ''language-''] [''lang-js'', ''language-python'']
     = find_language [''language-'', ''lang-''] [''lang-js'', ''language-python'']"
proof -
  have "set [''lang-'', ''language-''] = set [''language-'', ''lang-'']" by auto
  with find_language_first_class
         [of "[''language-'', ''lang-'']" "[''lang-js'', ''language-python'']" "[''lang-'', ''language-'']"]
  show ?thesis by blast
qed

section \<open>File names\<close>

text \<open>
  For the evaluation of \<open>urlparse\<close> on a given URL, whatever the library: whether the
  scheme has parameters matters only when the path has a semicolon in it.
\<close>

lemma urlparse_code [code]:
  "urlparse lib url =
     (let url1 = filter (\<lambda>c. c \<notin> {CHR 0x09, CHR 0x0D, CHR 0x0A})
                   (dropWhile (\<lambda>c. (of_char c :: nat) \<le> 32) url);
          front = takeWhile (\<lambda>c. c \<noteq> CHR '':'') url1;
          has_scheme = (CHR '':'' \<in> set url1 \<and> front \<noteq> [] \<and> ascii_alpha (hd url1)
                          \<and> list_all scheme_char front);
          sch = (if has_scheme then map ascii_lower front else []);
          url2 = (if has_scheme then drop (length front + 1) url1 else url1);
          has_netloc = prefix ''//'' url2;
          loc = (if has_netloc then takeWhile netloc_char (drop 2 url2) else []);
          url3 = (if has_netloc then dropWhile netloc_char (drop 2 url2) else url2);
          url4 = takeWhile (\<lambda>c. c \<noteq> CHR ''?'') (takeWhile (\<lambda>c. c \<noteq> CHR ''#'') url3);
          url5 = (if CHR '';'' \<in> set url4
                  then (if sch \<in> set (uses_params lib) then splitparams url4 else url4)
                  else url4)
      in if (CHR ''['' \<in> set loc) \<noteq> (CHR '']'' \<in> set loc) then Inl ValueError
         else if CHR ''['' \<in> set loc \<and> CHR '']'' \<in> set loc
                 \<and> \<not> check_bracketed_host lib (bracketed_host loc) then Inl ValueError
         else Inr \<lparr> scheme = sch, netloc = loc, path = url5 \<rparr>)"
  unfolding urlparse_def by (intro arg_cong2 [where f = Let] refl ext) auto

lemma urlparse_guide:
  "urlparse lib ''https://example.com/docs/guide.html''
     = Inr \<lparr> scheme = ''https'', netloc = ''example.com'', path = ''/docs/guide.html'' \<rparr>"
  by code_simp

lemma urlparse_root:
  "urlparse lib ''https://example.com/''
     = Inr \<lparr> scheme = ''https'', netloc = ''example.com'', path = ''/'' \<rparr>"
  by code_simp

text \<open>
  C7. \<open>generate_filename\<close>, the function \<open>convert\<close> calls, keeps the extension of the
  last path component and appends \<open>.md\<close> to it: the page \<open>guide.html\<close> is saved as
  \<open>guide.html.md\<close>, not as \<open>guide.md\<close>.
\<close>

theorem generate_filename_keeps_extension:
  "generate_filename lib ''https://example.com/docs/guide.html'' = Inr ''guide.html.md''"
  by code_simp

text \<open>
  For a URL without a path both functions derive the name from the domain. The other
  copy of the module drops the extension first, and gives \<open>guide.md\<close>, for every
  decoder that leaves a text without \<open>%\<close> as it is, as \<open>unquote\<close> does.
\<close>

lemma generate_filename_domain:
  "generate_filename lib ''https://example.com/'' = Inr ''example.com.md''"
  by code_simp

lemma get_safe_filename_strips_extension:
  assumes "\<And>s. CHR ''%'' \<notin> set s \<Longrightarrow> unquote s = s"
  shows "get_safe_filename lib unquote ''https://example.com/docs/guide.html'' = Inr ''guide.md''"
proof -
  have u: "unquote ''/docs/guide.html'' = ''/docs/guide.html''" by (rule assms) simp
  have a: "get_safe_filename lib (\<lambda>s. s) ''https://example.com/docs/guide.html'' = Inr ''guide.md''"
    by code_simp
  show ?thesis
    using a by (simp add: get_safe_filename_def urlparse_guide u)
qed

lemma get_safe_filename_domain:
  "get_safe_filename lib unquote ''https://example.com/'' = Inr ''example.md''"
proof -
  have b: "get_safe_filename lib (\<lambda>s. s) ''https://example.com/'' = Inr ''example.md''"
    by code_simp
  show ?thesis
    using b by (simp add: get_safe_filename_def urlparse_root)
qed

section \<open>The base of relative URLs\<close>

text \<open>
  C8, as stated, fails: with a configured \<open>base_url\<close> and the URL of the page both
  given, a relative link is resolved against the URL of the page.
\<close>

theorem base_url_override_counterexample:
  "clean_soup (default_config \<lparr> base_url := Some ''https://override.example/base'' \<rparr>)
     (Some ''https://source.example/page'') [Tag ''a'' [(''href'', ''x'')] [] []]
   = Inr [Tag ''a'' [(''href'', ''https://source.example/page/x'')] [] []]
   \<and> clean_soup (default_config \<lparr> base_url := Some ''https://override.example/base'' \<rparr>)
       (Some ''https://source.example/page'') [Tag ''a'' [(''href'', ''x'')] [] []]
     \<noteq> Inr [Tag ''a'' [(''href'', absolute_url ''https://override.example/base'' ''x'')] [] []]"
  by code_simp

lemma process_code_blocks_base_url:
  "process_code_blocks (cfg \<lparr> base_url := b \<rparr>) soup = process_code_blocks cfg soup"
proof (induction cfg soup rule: process_code_blocks.induct)
  case (3 cfg n a c ks ns)
  have nt: "new_tag (cfg \<lparr> base_url := b \<rparr>) code = new_tag cfg code" for code
    by (simp add: new_tag_def)
  show ?case
  proof (cases "if n = ''pre'' then find_tag ''code'' ks else None")
    case None
    with 3 show ?thesis by (simp split: sum.splits)
  next
    case (Some code)
    with 3 show ?thesis by (simp add: nt split: sum.splits)
  qed
qed simp_all

text \<open>
  C8, amended: the URL of the page, when it is given and not empty, is the base of the
  resolution, and the configured \<open>base_url\<close> then has no effect on the cleaned tree; the
  configured \<open>base_url\<close> is the base only when no URL of the page is given.
\<close>

theorem source_url_is_base:
  "(u \<noteq> [] \<longrightarrow>
      clean_soup cfg (Some u) soup =
        (case process_code_blocks cfg (decompose_all (remove_elements cfg) soup) of
           Inl e \<Rightarrow> Inl e
         | Inr soup' \<Rightarrow> Inr (convert_relative_urls u soup'))
      \<and> clean_soup (cfg \<lparr> base_url := b \<rparr>) (Some u) soup = clean_soup cfg (Some u) soup)
   \<and> (\<not> truthy url \<and> base_url cfg = Some d \<and> d \<noteq> [] \<longrightarrow>
      clean_soup cfg url soup =
        (case process_code_blocks cfg (decompose_all (remove_elements cfg) soup) of
           Inl e \<Rightarrow> Inl e
         | Inr soup' \<Rightarrow> Inr (convert_relative_urls d soup')))"
  by (simp add: clean_soup_def resolution_base_def truthy_def process_code_blocks_base_url
           split: sum.splits)

theorem source_url_is_base_witness:
  "clean_soup (default_config \<lparr> base_url := Some ''https://override.example/base'' \<rparr>)
     (Some ''https://source.example/page'') [Tag ''a'' [(''href'', ''x'')] [] []]
   = clean_soup default_config (Some ''https://source.example/page'') [Tag ''a'' [(''href'', ''x'')] [] []]
   \<and> clean_soup (default_config \<lparr> base_url := Some ''https://override.example/base'' \<rparr>)
     None [Tag ''a'' [(''href'', ''x'')] [] []]
     = Inr [Tag ''a'' [(''href'', ''https://override.example/base/x'')] [] []]"
proof -
  have 1: "''https://source.example/page'' \<noteq> []" by simp
  have 2: "\<not> truthy None" by (simp add: truthy_def)
  have 3: "base_url (default_config \<lparr> base_url := Some ''https://override.example/base'' \<rparr>)
             = Some ''https://override.example/base''" by simp
  have 4: "''https://override.example/base'' \<noteq> []" by simp
  have 5: "(case process_code_blocks (default_config \<lparr> base_url := Some ''https://override.example/base'' \<rparr>)
                 (decompose_all (remove_elements (default_config \<lparr> base_url := Some ''https://override.example/base'' \<rparr>))
                    [Tag ''a'' [(''href'', ''x'')] [] []]) of
           Inl e \<Rightarrow> Inl e
         | Inr soup' \<Rightarrow> Inr (convert_relative_urls ''https://override.example/base'' soup'))
       = Inr [Tag ''a'' [(''href'', ''https://override.example/base/x'')] [] []]"
    by code_simp
  from source_url_is_base [of "''https://source.example/page''" default_config
         "[Tag ''a'' [(''href'', ''x'')] [] []]" "Some ''https://override.example/base''"] 1
  have a: "clean_soup (default_config \<lparr> base_url := Some ''https://override.example/base'' \<rparr>)
     (Some ''https://source.example/page'') [Tag ''a'' [(''href'', ''x'')] [] []]
   = clean_soup default_config (Some ''https://source.example/page'') [Tag ''a'' [(''href'', ''x'')] [] []]"
    by blast
  from source_url_is_base [of _ "default_config \<lparr> base_url := Some ''https://override.example/base'' \<rparr>"
         "[Tag ''a'' [(''href'', ''x'')] [] []]" _ None "''https://override.example/base''"] 2 3 4
  have b: "clean_soup (default_config \<lparr> base_url := Some ''https://override.example/base'' \<rparr>)
     None [Tag ''a'' [(''href'', ''x'')] [] []]
     = (case process_code_blocks (default_config \<lparr> base_url := Some ''https://override.example/base'' \<rparr>)
                 (decompose_all (remove_elements (default_config \<lparr> base_url := Some ''https://override.example/base'' \<rparr>))
                    [Tag ''a'' [(''href'', ''x'')] [] []]) of
           Inl e \<Rightarrow> Inl e
         | Inr soup' \<Rightarrow> Inr (convert_relative_urls ''https://override.example/base'' soup'))"
    by blast
  show ?thesis using a b 5 by simp
qed

section \<open>Failure of a stage of \<open>convert\<close>\<close>

text \<open>
  C9. When the fetch, the cleaning or the conversion to Markdown fails, \<open>convert\<close>
  ends with that error and the file system is the one it started with: no directory
  has been created and no file written.
\<close>

theorem convert_aborts_without_writing:
  "(fetch_url env url = Inl e \<longrightarrow> convert env cfg url output_dir w = (Inl e, w))
   \<and> (fetch_url env url = Inr html_content
        \<and> clean_html (parse env) (render env) cfg html_content (Some url) = Inl e
      \<longrightarrow> convert env cfg url output_dir w = (Inl e, w))
   \<and> (fetch_url env url = Inr html_content
        \<and> clean_html (parse env) (render env) cfg html_content (Some url) = Inr cleaned_html
        \<and> html_to_markdown (handle env) (body_width cfg) cleaned_html = Inl e
      \<longrightarrow> convert env cfg url output_dir w = (Inl e, w))"
  by (simp add: convert_def)

text \<open>
  The three failures in an environment that records every write: a failed fetch, an
  \<open>IndexError\<close> of the code-block pass during cleaning, and a failed renderer.
\<close>

theorem convert_aborts_without_writing_witness:
  "convert (recording_environment (\<lambda>u. Inl RequestException) (\<lambda>h. Inr []) (\<lambda>n h. Inr h))
     default_config ''https://example.com/'' None [] = (Inl RequestException, [])
   \<and> convert
       (recording_environment (\<lambda>u. Inr ''page'')
          (\<lambda>h. Inr [Tag ''pre'' [] [] [Tag ''code'' [] [''language''] []]]) (\<lambda>n h. Inr h))
       (default_config \<lparr> code_language_classes := [''lang''] \<rparr>) ''https://example.com/'' None []
     = (Inl IndexError, [])
   \<and> convert
       (recording_environment (\<lambda>u. Inr ''page'') (\<lambda>h. Inr [NavigableString ''text''])
          (\<lambda>n h. Inl OtherException))
       default_config ''https://example.com/'' None []
     = (Inl OtherException, [])"
proof (intro conjI)
  let ?env1 = "recording_environment (\<lambda>u. Inl RequestException) (\<lambda>h. Inr []) (\<lambda>n h. Inr h)"
  have "fetch_url ?env1 ''https://example.com/'' = Inl RequestException"
    by (simp add: recording_environment_def)
  with convert_aborts_without_writing
         [of ?env1 "''https://example.com/''" RequestException default_config None "[]"]
  show "convert ?env1 default_config ''https://example.com/'' None [] = (Inl RequestException, [])"
    by blast
next
  let ?env2 = "recording_environment (\<lambda>u. Inr ''page'')
          (\<lambda>h. Inr [Tag ''pre'' [] [] [Tag ''code'' [] [''language''] []]]) (\<lambda>n h. Inr h)"
  let ?cfg = "default_config \<lparr> code_language_classes := [''lang''] \<rparr>"
  have f: "fetch_url ?env2 ''https://example.com/'' = Inr ''page''"
    by (simp add: recording_environment_def)
  have c: "clean_html (parse ?env2) (render ?env2) ?cfg ''page'' (Some ''https://example.com/'')
             = Inl IndexError"
    by code_simp
  from convert_aborts_without_writing
         [of ?env2 "''https://example.com/''" IndexError ?cfg None "[]" "''page''"] f c
  show "convert ?env2 ?cfg ''https://example.com/'' None [] = (Inl IndexError, [])"
    by blast
next
  let ?env3 = "recording_environment (\<lambda>u. Inr ''page'') (\<lambda>h. Inr [NavigableString ''text''])
          (\<lambda>n h. Inl OtherException)"
  have f: "fetch_url ?env3 ''https://example.com/'' = Inr ''page''"
    by (simp add: recording_environment_def)
  have c: "clean_html (parse ?env3) (render ?env3) default_config ''page'' (Some ''https://example.com/'')
             = Inr ''text''"
    by code_simp
  have m: "html_to_markdown (handle ?env3) (body_width default_config) ''text'' = Inl OtherException"
    by (simp add: html_to_markdown_def recording_environment_def)
  from convert_aborts_without_writing
         [of ?env3 "''https://example.com/''" OtherException default_config None "[]" "''page''" "''text''"]
       f c m
  show "convert ?env3 default_config ''https://example.com/'' None [] = (Inl OtherException, [])"
    by blast
qed

text \<open>In the same environment a conversion whose stages succeed writes its file.\<close>

lemma convert_writes_on_success:
  "convert (recording_environment (\<lambda>u. Inr ''page'') (\<lambda>h. Inr [NavigableString ''text''])
             (\<lambda>n h. Inr h))
     default_config ''https://example.com/'' None []
   = (Inr ''out/example.com.md'', [(''out/example.com.md'', ''text'')])"
  by code_simp

section \<open>Rewriting of relative URLs\<close>

lemma length_convert_relative_urls [simp]:
  "length (convert_relative_urls base ns) = length ns"
  by (induction base ns rule: convert_relative_urls.induct) simp_all

lemma nth_convert_relative_urls:
  "i < length ns \<Longrightarrow>
   convert_relative_urls base ns ! i =
     (case ns ! i of
        Tag n a c ks \<Rightarrow> Tag n (convert_attrs base n a) c (convert_relative_urls base ks)
      | NavigableString s \<Rightarrow> NavigableString s
      | SpecialString k s \<Rightarrow> SpecialString k s)"
proof (induction base ns arbitrary: i rule: convert_relative_urls.induct)
  case (1 base)
  then show ?case by simp
next
  case (2 base s ns)
  then show ?case by (cases i) simp_all
next
  case (3 base n a c ks ns)
  then show ?case by (cases i) simp_all
next
  case (4 base k s ns)
  then show ?case by (cases i) simp_all
qed

lemma node_at_convert_relative_urls:
  "node_at soup p = Some (Tag n a c ks) \<Longrightarrow>
   node_at (convert_relative_urls base soup) p =
     Some (Tag n (convert_attrs base n a) c (convert_relative_urls base ks))"
proof (induction soup p rule: node_at.induct)
  case (1 ns)
  then show ?case by simp
next
  case (2 ns i)
  then show ?case by (simp add: nth_convert_relative_urls split: if_splits)
next
  case (3 ns i j p)
  then show ?case
    by (auto simp: nth_convert_relative_urls split: if_splits node.splits)
qed

lemma map_of_rebase_attr:
  "map_of a key = Some v \<Longrightarrow>
   map_of (rebase_attr base key a) key =
     Some (if startswith_any [''http://'', ''https://''] v then v
           else rstrip CHR ''/'' base @ ''/'' @ lstrip CHR ''/'' v)"
  by (simp add: rebase_attr_def absolute_url_def update_conv)

text \<open>
  C2. An anchor with an \<open>href\<close> and an image with a \<open>src\<close>, wherever they stand in the
  tree, keep their place, their classes and their children; the value of the attribute
  is left as it is when it starts with \<open>http://\<close> or \<open>https://\<close>, and is otherwise the
  base without its trailing slashes, one slash, and the value without its leading
  slashes. The two examples of the specification follow.
\<close>

theorem relative_urls_rewritten:
  "(node_at soup p = Some (Tag ''a'' a c ks) \<and> map_of a ''href'' = Some v \<longrightarrow>
      (\<exists>a'. node_at (convert_relative_urls base soup) p
                = Some (Tag ''a'' a' c (convert_relative_urls base ks))
            \<and> map_of a' ''href'' =
                Some (if startswith_any [''http://'', ''https://''] v then v
                      else rstrip CHR ''/'' base @ ''/'' @ lstrip CHR ''/'' v)))
   \<and> (node_at soup p = Some (Tag ''img'' a c ks) \<and> map_of a ''src'' = Some v \<longrightarrow>
      (\<exists>a'. node_at (convert_relative_urls base soup) p
                = Some (Tag ''img'' a' c (convert_relative_urls base ks))
            \<and> map_of a' ''src'' =
                Some (if startswith_any [''http://'', ''https://''] v then v
                      else rstrip CHR ''/'' base @ ''/'' @ lstrip CHR ''/'' v)))
   \<and> convert_relative_urls ''https://example.com/blog/'' [Tag ''a'' [(''href'', ''post2'')] [] []]
        = [Tag ''a'' [(''href'', ''https://example.com/blog/post2'')] [] []]
   \<and> convert_relative_urls ''https://example.com/blog/'' [Tag ''a'' [(''href'', ''https://other.com/x'')] [] []]
        = [Tag ''a'' [(''href'', ''https://other.com/x'')] [] []]"
proof (intro conjI impI)
  assume h: "node_at soup p = Some (Tag ''a'' a c ks) \<and> map_of a ''href'' = Some v"
  then have "node_at (convert_relative_urls base soup) p
      = Some (Tag ''a'' (convert_attrs base ''a'' a) c (convert_relative_urls base ks))"
    by (simp add: node_at_convert_relative_urls)
  moreover have "map_of (convert_attrs base ''a'' a) ''href'' =
      Some (if startswith_any [''http://'', ''https://''] v then v
            else rstrip CHR ''/'' base @ ''/'' @ lstrip CHR ''/'' v)"
    using h by (simp add: convert_attrs_def map_of_rebase_attr)
  ultimately show "\<exists>a'. node_at (convert_relative_urls base soup) p
                = Some (Tag ''a'' a' c (convert_relative_urls base ks))
            \<and> map_of a' ''href'' =
                Some (if startswith_any [''http://'', ''https://''] v then v
                      else rstrip CHR ''/'' base @ ''/'' @ lstrip CHR ''/'' v)"
    by blast
next
  assume h: "node_at soup p = Some (Tag ''img'' a c ks) \<and> map_of a ''src'' = Some v"
  then have "node_at (convert_relative_urls base soup) p
      = Some (Tag ''img'' (convert_attrs base ''img'' a) c (convert_relative_urls base ks))"
    by (simp add: node_at_convert_relative_urls)
  moreover have "map_of (convert_attrs base ''img'' a) ''src'' =
      Some (if startswith_any [''http://'', ''https://''] v then v
            else rstrip CHR ''/'' base @ ''/'' @ lstrip CHR ''/'' v)"
    using h by (simp add: convert_attrs_def map_of_rebase_attr)
  ultimately show "\<exists>a'. node_at (convert_relative_urls base soup) p
                = Some (Tag ''img'' a' c (convert_relative_urls base ks))
            \<and> map_of a' ''src'' =
                Some (if startswith_any [''http://'', ''https://''] v then v
                      else rstrip CHR ''/'' base @ ''/'' @ lstrip CHR ''/'' v)"
    by blast
next
  show "convert_relative_urls ''https://example.com/blog/'' [Tag ''a'' [(''href'', ''post2'')] [] []]
        = [Tag ''a'' [(''href'', ''https://example.com/blog/post2'')] [] []]"
    by code_simp
next
  show "convert_relative_urls ''https://example.com/blog/'' [Tag ''a'' [(''href'', ''https://other.com/x'')] [] []]
        = [Tag ''a'' [(''href'', ''https://other.com/x'')] [] []]"
    by code_simp
qed

theorem relative_urls_rewritten_witness:
  "(\<exists>a'. node_at (convert_relative_urls ''https://example.com/blog/''
                    [Tag ''div'' [] []
                       [Tag ''a'' [(''href'', ''/post2'')] [] [],
                        Tag ''img'' [(''src'', ''https://cdn.example/pic.png'')] [] []]]) [0, 0]
            = Some (Tag ''a'' a' [] [])
         \<and> map_of a' ''href'' = Some ''https://example.com/blog/post2'')
   \<and> (\<exists>a'. node_at (convert_relative_urls ''https://example.com/blog/''
                    [Tag ''div'' [] []
                       [Tag ''a'' [(''href'', ''/post2'')] [] [],
                        Tag ''img'' [(''src'', ''https://cdn.example/pic.png'')] [] []]]) [0, 1]
            = Some (Tag ''img'' a' [] [])
         \<and> map_of a' ''src'' = Some ''https://cdn.example/pic.png'')"
proof (intro conjI)
  let ?soup = "[Tag ''div'' [] []
                  [Tag ''a'' [(''href'', ''/post2'')] [] [],
                   Tag ''img'' [(''src'', ''https://cdn.example/pic.png'')] [] []]]"
  let ?base = "''https://example.com/blog/''"
  have n: "node_at ?soup [0, 0] = Some (Tag ''a'' [(''href'', ''/post2'')] [] [])" by simp
  have m: "map_of [(''href'', ''/post2'')] ''href'' = Some ''/post2''" by simp
  have v: "(if startswith_any [''http://'', ''https://''] ''/post2'' then ''/post2''
            else rstrip CHR ''/'' ?base @ ''/'' @ lstrip CHR ''/'' ''/post2'')
           = ''https://example.com/blog/post2''"
    by code_simp
  from relative_urls_rewritten [of ?soup "[0, 0]" "[(''href'', ''/post2'')]" "[]" "[]" "''/post2''" ?base]
       n m
  show "\<exists>a'. node_at (convert_relative_urls ?base ?soup) [0, 0] = Some (Tag ''a'' a' [] [])
         \<and> map_of a' ''href'' = Some ''https://example.com/blog/post2''"
    unfolding v by simp
next
  let ?soup = "[Tag ''div'' [] []
                  [Tag ''a'' [(''href'', ''/post2'')] [] [],
                   Tag ''img'' [(''src'', ''https://cdn.example/pic.png'')] [] []]]"
  let ?base = "''https://example.com/blog/''"
  have n: "node_at ?soup [0, 1]
             = Some (Tag ''img'' [(''src'', ''https://cdn.example/pic.png'')] [] [])" by simp
  have m: "map_of [(''src'', ''https://cdn.example/pic.png'')] ''src''
             = Some ''https://cdn.example/pic.png''" by simp
  have v: "(if startswith_any [''http://'', ''https://''] ''https://cdn.example/pic.png''
            then ''https://cdn.example/pic.png''
            else rstrip CHR ''/'' ?base @ ''/'' @ lstrip CHR ''/'' ''https://cdn.example/pic.png'')
           = ''https://cdn.example/pic.png''"
    by code_simp
  from relative_urls_rewritten
         [of ?soup "[0, 1]" "[(''src'', ''https://cdn.example/pic.png'')]" "[]" "[]"
             "''https://cdn.example/pic.png''" ?base]
       n m
  show "\<exists>a'. node_at (convert_relative_urls ?base ?soup) [0, 1] = Some (Tag ''img'' a' [] [])
         \<and> map_of a' ''src'' = Some ''https://cdn.example/pic.png''"
    unfolding v by simp
qed

section \<open>Normalisation of code blocks\<close>

lemma process_code_blocks_Cons:
  assumes "process_code_blocks cfg (nd # ns) = Inr out"
  shows "\<exists>nd' ns'. out = nd' # ns' \<and> process_code_blocks cfg ns = Inr ns' \<and>
           (case nd of
              Tag n a c ks \<Rightarrow>
                (\<exists>ks'. process_code_blocks cfg ks = Inr ks' \<and>
                   (if code_block nd
                    then (\<exists>code. find_tag ''code'' ks = Some code \<and> new_tag cfg code = Inr nd')
                    else nd' = Tag n a c ks'))
            | NavigableString s \<Rightarrow> nd' = nd
            | SpecialString k s \<Rightarrow> nd' = nd)"
proof (cases nd)
  case (NavigableString s)
  with assms show ?thesis by (auto split: sum.splits)
next
  case (SpecialString k s)
  with assms show ?thesis by (auto split: sum.splits)
next
  case (Tag n a c ks)
  show ?thesis
  proof (cases "if n = ''pre'' then find_tag ''code'' ks else None")
    case None
    with assms Tag show ?thesis by (auto split: sum.splits if_splits)
  next
    case (Some code)
    with assms Tag show ?thesis by (auto split: sum.splits if_splits)
  qed
qed

lemma process_code_blocks_length:
  "process_code_blocks cfg ns = Inr ns' \<Longrightarrow> length ns' = length ns"
proof (induction ns arbitrary: ns')
  case Nil
  then show ?case by simp
next
  case (Cons nd ns)
  from process_code_blocks_Cons [OF Cons.prems] Cons.IH show ?case by auto
qed

lemma process_code_blocks_nth:
  "process_code_blocks cfg ns = Inr ns' \<Longrightarrow> i < length ns \<Longrightarrow>
   (case ns ! i of
      Tag n a c ks \<Rightarrow>
        (\<exists>ks'. process_code_blocks cfg ks = Inr ks' \<and>
           (if code_block (ns ! i)
            then (\<exists>code. find_tag ''code'' ks = Some code \<and> new_tag cfg code = Inr (ns' ! i))
            else ns' ! i = Tag n a c ks'))
    | NavigableString s \<Rightarrow> ns' ! i = ns ! i
    | SpecialString k s \<Rightarrow> ns' ! i = ns ! i)"
proof (induction ns arbitrary: ns' i)
  case Nil
  then show ?case by simp
next
  case (Cons nd ns)
  from process_code_blocks_Cons [OF Cons.prems(1)] obtain nd' ms where
    out: "ns' = nd' # ms" and rest: "process_code_blocks cfg ns = Inr ms" and
    hd: "(case nd of
              Tag n a c ks \<Rightarrow>
                (\<exists>ks'. process_code_blocks cfg ks = Inr ks' \<and>
                   (if code_block nd
                    then (\<exists>code. find_tag ''code'' ks = Some code \<and> new_tag cfg code = Inr nd')
                    else nd' = Tag n a c ks'))
            | NavigableString s \<Rightarrow> nd' = nd
            | SpecialString k s \<Rightarrow> nd' = nd)"
    by blast
  show ?case
  proof (cases i)
    case 0
    show ?thesis unfolding 0 out nth_Cons_0 by (rule hd)
  next
    case (Suc j)
    with Cons.prems(2) have "j < length ns" by simp
    from Cons.IH [OF rest this] show ?thesis unfolding Suc out nth_Cons_Suc .
  qed
qed


text \<open>What stands, after the pass, at a position outside every code block.\<close>

lemma node_at_process_code_blocks:
  "process_code_blocks cfg soup = Inr soup' \<Longrightarrow> node_at soup p = Some nd \<Longrightarrow>
   list_all (\<lambda>m. \<not> code_block m) (ancestors_at soup p) \<Longrightarrow>
   (case nd of
      Tag n a c ks \<Rightarrow>
        (if code_block nd
         then (\<exists>code new. find_tag ''code'' ks = Some code \<and> new_tag cfg code = Inr new
                 \<and> node_at soup' p = Some new)
         else (\<exists>ks'. process_code_blocks cfg ks = Inr ks' \<and> node_at soup' p = Some (Tag n a c ks')))
    | NavigableString s \<Rightarrow> node_at soup' p = Some nd
    | SpecialString k s \<Rightarrow> node_at soup' p = Some nd)"
proof (induction soup p arbitrary: soup' rule: node_at.induct)
  case (1 ns)
  then show ?case by simp
next
  case (2 ns i)
  then have i: "i < length ns" and nd: "nd = ns ! i" by (auto split: if_splits)
  from process_code_blocks_nth [OF "2.prems"(1) i] process_code_blocks_length [OF "2.prems"(1)] i nd
  show ?case by (auto split: node.splits if_splits)
next
  case (3 ns i j p)
  from "3.prems"(2) have i: "i < length ns" by (auto split: if_splits)
  from "3.prems"(2) i obtain n a c ks where t: "ns ! i = Tag n a c ks"
    by (cases "ns ! i") auto
  from "3.prems"(2) i t have sub: "node_at ks (j # p) = Some nd" by simp
  from "3.prems"(3) i t have ncb: "\<not> code_block (Tag n a c ks)"
    and anc: "list_all (\<lambda>m. \<not> code_block m) (ancestors_at ks (j # p))" by simp_all
  from process_code_blocks_nth [OF "3.prems"(1) i] t ncb obtain ks' where
    ks': "process_code_blocks cfg ks = Inr ks'" and at: "soup' ! i = Tag n a c ks'"
    by auto
  have len: "length soup' = length ns" by (rule process_code_blocks_length [OF "3.prems"(1)])
  from "3.IH" [OF i t ks' sub anc] have
    "(case nd of
      Tag n a c ks \<Rightarrow>
        (if code_block nd
         then (\<exists>code new. find_tag ''code'' ks = Some code \<and> new_tag cfg code = Inr new
                 \<and> node_at ks' (j # p) = Some new)
         else (\<exists>ks'a. process_code_blocks cfg ks = Inr ks'a \<and> node_at ks' (j # p) = Some (Tag n a c ks'a)))
    | NavigableString s \<Rightarrow> node_at ks' (j # p) = Some nd
    | SpecialString k s \<Rightarrow> node_at ks' (j # p) = Some nd)" .
  moreover have "node_at soup' (i # j # p) = node_at ks' (j # p)"
    using i len at by simp
  ultimately show ?case by (simp only:)
qed

lemma find_tag_None_no_code_block:
  "find_tag ''code'' ns = None \<Longrightarrow> \<not> has_code_block ns"
  by (induction ns rule: has_code_block.induct) (auto split: if_splits option.splits)

lemma process_code_blocks_unchanged:
  "\<not> has_code_block ns \<Longrightarrow> process_code_blocks cfg ns = Inr ns"
  by (induction ns rule: has_code_block.induct) auto












text \<open>
  C10. A document without a code block is returned as it is. In a document on which
  the pass returns, at every position outside the code blocks, a text is left as it
  is, whatever its class, an element other than \<open>pre\<close> keeps its name, its attributes
  and its classes, its children being normalised in their turn, and a \<open>pre\<close> element
  with no code element below it is left as it is with everything below it.
\<close>

theorem other_nodes_unchanged:
  "(\<not> has_code_block soup \<longrightarrow> process_code_blocks cfg soup = Inr soup)
   \<and> (process_code_blocks cfg soup = Inr soup'
        \<and> list_all (\<lambda>m. \<not> code_block m) (ancestors_at soup p) \<longrightarrow>
        (node_at soup p = Some (NavigableString s) \<longrightarrow> node_at soup' p = Some (NavigableString s))
      \<and> (node_at soup p = Some (SpecialString k s) \<longrightarrow> node_at soup' p = Some (SpecialString k s))
      \<and> (node_at soup p = Some (Tag n a c ks) \<and> n \<noteq> ''pre'' \<longrightarrow>
           (\<exists>ks'. process_code_blocks cfg ks = Inr ks' \<and> node_at soup' p = Some (Tag n a c ks')))
      \<and> (node_at soup p = Some (Tag ''pre'' a c ks) \<and> find_tag ''code'' ks = None \<longrightarrow>
           node_at soup' p = Some (Tag ''pre'' a c ks)))"
proof (intro conjI impI)
  assume "\<not> has_code_block soup"
  then show "process_code_blocks cfg soup = Inr soup" by (rule process_code_blocks_unchanged)
next
  assume h: "process_code_blocks cfg soup = Inr soup'
        \<and> list_all (\<lambda>m. \<not> code_block m) (ancestors_at soup p)"
    and nd: "node_at soup p = Some (NavigableString s)"
  from node_at_process_code_blocks [of cfg soup soup' p "NavigableString s"] h nd
  show "node_at soup' p = Some (NavigableString s)" by simp
next
  assume h: "process_code_blocks cfg soup = Inr soup'
        \<and> list_all (\<lambda>m. \<not> code_block m) (ancestors_at soup p)"
    and nd: "node_at soup p = Some (SpecialString k s)"
  from node_at_process_code_blocks [of cfg soup soup' p "SpecialString k s"] h nd
  show "node_at soup' p = Some (SpecialString k s)" by simp
next
  assume h: "process_code_blocks cfg soup = Inr soup'
        \<and> list_all (\<lambda>m. \<not> code_block m) (ancestors_at soup p)"
    and nd: "node_at soup p = Some (Tag n a c ks) \<and> n \<noteq> ''pre''"
  from node_at_process_code_blocks [of cfg soup soup' p "Tag n a c ks"] h nd
  show "\<exists>ks'. process_code_blocks cfg ks = Inr ks' \<and> node_at soup' p = Some (Tag n a c ks')"
    by simp
next
  assume h: "process_code_blocks cfg soup = Inr soup'
        \<and> list_all (\<lambda>m. \<not> code_block m) (ancestors_at soup p)"
    and nd: "node_at soup p = Some (Tag ''pre'' a c ks) \<and> find_tag ''code'' ks = None"
  from node_at_process_code_blocks [of cfg soup soup' p "Tag ''pre'' a c ks"] h nd
  obtain ks' where "process_code_blocks cfg ks = Inr ks'" "node_at soup' p = Some (Tag ''pre'' a c ks')"
    by auto
  moreover from nd have "process_code_blocks cfg ks = Inr ks"
    by (simp add: process_code_blocks_unchanged find_tag_None_no_code_block)
  ultimately show "node_at soup' p = Some (Tag ''pre'' a c ks)" by simp
qed

theorem other_nodes_unchanged_witness:
  "process_code_blocks default_config [Tag ''p'' [] [] [NavigableString ''t'']]
     = Inr [Tag ''p'' [] [] [NavigableString ''t'']]
   \<and> node_at [Tag ''div'' [(''id'', ''m'')] [''main'']
                [NavigableString ''t'',
                 Tag ''pre'' [] [] [NavigableString ''plain''],
                 Tag ''pre'' [] [] [NavigableString ''```\<newline>c\<newline>```''],
                 SpecialString Comment ''note'']] [0, 0]
       = Some (NavigableString ''t'')
   \<and> (\<exists>ks'. node_at [Tag ''div'' [(''id'', ''m'')] [''main'']
                [NavigableString ''t'',
                 Tag ''pre'' [] [] [NavigableString ''plain''],
                 Tag ''pre'' [] [] [NavigableString ''```\<newline>c\<newline>```''],
                 SpecialString Comment ''note'']] [0]
       = Some (Tag ''div'' [(''id'', ''m'')] [''main''] ks'))
   \<and> node_at [Tag ''div'' [(''id'', ''m'')] [''main'']
                [NavigableString ''t'',
                 Tag ''pre'' [] [] [NavigableString ''plain''],
                 Tag ''pre'' [] [] [NavigableString ''```\<newline>c\<newline>```''],
                 SpecialString Comment ''note'']] [0, 1]
       = Some (Tag ''pre'' [] [] [NavigableString ''plain''])
   \<and> node_at [Tag ''div'' [(''id'', ''m'')] [''main'']
                [NavigableString ''t'',
                 Tag ''pre'' [] [] [NavigableString ''plain''],
                 Tag ''pre'' [] [] [NavigableString ''```\<newline>c\<newline>```''],
                 SpecialString Comment ''note'']] [0, 3]
       = Some (SpecialString Comment ''note'')"
proof -
  let ?kids = "[NavigableString ''t'',
                Tag ''pre'' [] [] [NavigableString ''plain''],
                Tag ''pre'' [] [] [Tag ''code'' [] [] [NavigableString ''c'']],
                SpecialString Comment ''note'']"
  let ?soup = "[Tag ''div'' [(''id'', ''m'')] [''main''] ?kids]"
  let ?soup' = "[Tag ''div'' [(''id'', ''m'')] [''main'']
                [NavigableString ''t'',
                 Tag ''pre'' [] [] [NavigableString ''plain''],
                 Tag ''pre'' [] [] [NavigableString ''```\<newline>c\<newline>```''],
                 SpecialString Comment ''note'']]"
  have none: "\<not> has_code_block [Tag ''p'' [] [] [NavigableString ''t'']]" by simp
  have run: "process_code_blocks default_config ?soup = Inr ?soup'" by code_simp
  have top0: "list_all (\<lambda>m. \<not> code_block m) (ancestors_at ?soup [0])" by simp
  have top1: "list_all (\<lambda>m. \<not> code_block m) (ancestors_at ?soup [0, 0])" by simp
  have top2: "list_all (\<lambda>m. \<not> code_block m) (ancestors_at ?soup [0, 1])" by simp
  have top3: "list_all (\<lambda>m. \<not> code_block m) (ancestors_at ?soup [0, 3])" by simp
  have at0: "node_at ?soup [0] = Some (Tag ''div'' [(''id'', ''m'')] [''main''] ?kids)" by simp
  have at1: "node_at ?soup [0, 0] = Some (NavigableString ''t'')" by simp
  have at2: "node_at ?soup [0, 1] = Some (Tag ''pre'' [] [] [NavigableString ''plain''])" by simp
  have at3: "node_at ?soup [0, 3] = Some (SpecialString Comment ''note'')" by simp
  have nocode: "find_tag ''code'' [NavigableString ''plain''] = None" by simp
  have div: "''div'' \<noteq> ''pre''" by simp
  from other_nodes_unchanged [of "[Tag ''p'' [] [] [NavigableString ''t'']]" default_config] none
  have 1: "process_code_blocks default_config [Tag ''p'' [] [] [NavigableString ''t'']]
             = Inr [Tag ''p'' [] [] [NavigableString ''t'']]"
    by blast
  from other_nodes_unchanged [of ?soup default_config ?soup' "[0, 0]" "''t''"] run top1 at1
  have 2: "node_at ?soup' [0, 0] = Some (NavigableString ''t'')" by blast
  from other_nodes_unchanged
         [of ?soup default_config ?soup' "[0]" _ _ "''div''" "[(''id'', ''m'')]" "[''main'']" ?kids]
       run top0 at0 div
  have 3: "\<exists>ks'. node_at ?soup' [0] = Some (Tag ''div'' [(''id'', ''m'')] [''main''] ks')" by blast
  from other_nodes_unchanged
         [of ?soup default_config ?soup' "[0, 1]" _ _ _ "[]" "[]" "[NavigableString ''plain'']"]
       run top2 at2 nocode
  have 4: "node_at ?soup' [0, 1] = Some (Tag ''pre'' [] [] [NavigableString ''plain''])" by blast
  from other_nodes_unchanged [of ?soup default_config ?soup' "[0, 3]" "''note''" Comment] run top3 at3
  have 5: "node_at ?soup' [0, 3] = Some (SpecialString Comment ''note'')" by blast
  from 1 2 3 4 5 show ?thesis by blast
qed

section \<open>Removal of unwanted elements\<close>

lemma walk_chain_above:
  "(chain, it) \<in> set (walk anc ns) \<Longrightarrow> set anc \<subseteq> set chain"
  by (induction anc ns rule: walk.induct) auto

lemma walk_decompose_all:
  "set anc \<inter> set names = {} \<Longrightarrow>
   walk anc (decompose_all names ns) =
     filter (\<lambda>(chain, it). set chain \<inter> set names = {}) (walk anc ns)"
proof (induction anc ns rule: walk.induct)
  case (1 anc)
  then show ?case by simp
next
  case (2 anc s ns)
  then show ?case by simp
next
  case (3 anc n a c ks ns)
  show ?case
  proof (cases "n \<in> set names")
    case True
    have "filter (\<lambda>(chain, it). set chain \<inter> set names = {}) (walk (anc @ [n]) ks) = []"
      using True walk_chain_above [of _ _ "anc @ [n]" ks] by (auto simp: filter_empty_conv)
    with True 3 show ?thesis by simp
  next
    case False
    with 3 show ?thesis by simp
  qed
next
  case (4 anc k s ns)
  then show ?case by simp
qed

lemma walk_convert_relative_urls:
  "map fst (walk anc (convert_relative_urls base ns)) = map fst (walk anc ns)"
  by (induction anc ns rule: walk.induct) simp_all

lemma walk_new_tag:
  "new_tag cfg code = Inr new \<Longrightarrow> fst ` set (walk anc [new]) = {anc @ [''pre'']}"
  by (auto simp: new_tag_def split: sum.splits)

lemma walk_process_code_blocks:
  "process_code_blocks cfg ns = Inr ns' \<Longrightarrow>
   fst ` set (walk anc ns') \<subseteq> fst ` set (walk anc ns)"
proof (induction anc ns arbitrary: ns' rule: walk.induct)
  case (1 anc)
  then show ?case by simp
next
  case (2 anc s ns)
  from "2.prems" obtain ms where out: "ns' = NavigableString s # ms"
    and rest: "process_code_blocks cfg ns = Inr ms"
    by (auto split: sum.splits)
  from "2.IH" [OF rest] show ?case unfolding out by auto
next
  case (3 anc n a c ks ns)
  from process_code_blocks_Cons [OF "3.prems"] obtain nd' ms ks' where
    out: "ns' = nd' # ms" and rest: "process_code_blocks cfg ns = Inr ms" and
    ks': "process_code_blocks cfg ks = Inr ks'" and
    hd: "if code_block (Tag n a c ks)
         then (\<exists>code. find_tag ''code'' ks = Some code \<and> new_tag cfg code = Inr nd')
         else nd' = Tag n a c ks'"
    by auto
  have tl: "fst ` set (walk anc ms) \<subseteq> fst ` set (walk anc ns)" by (rule "3.IH"(2) [OF rest])
  have w: "walk anc ns' = walk anc [nd'] @ walk anc ms"
    unfolding out by (cases nd') simp_all
  have "fst ` set (walk anc [nd']) \<subseteq> fst ` set (walk anc [Tag n a c ks])"
  proof (cases "code_block (Tag n a c ks)")
    case True
    with hd obtain code where "new_tag cfg code = Inr nd'" by auto
    from walk_new_tag [OF this, of anc] True show ?thesis by auto
  next
    case False
    with hd have nd': "nd' = Tag n a c ks'" by simp
    from "3.IH"(1) [OF ks'] nd' show ?thesis by auto
  qed
  with tl w show ?case by auto
next
  case (4 anc k s ns)
  from "4.prems" obtain ms where out: "ns' = SpecialString k s # ms"
    and rest: "process_code_blocks cfg ns = Inr ms"
    by (auto split: sum.splits)
  from "4.IH" [OF rest] show ?case unfolding out by auto
qed

text \<open>
  C6. \<open>walk\<close> lists every node of a forest with the names of the elements it lies in,
  its own included. After the removal the listing is the listing of the input without
  the nodes that have an element of a removed kind in that chain, whatever the
  position: such an element is gone with all its descendants, elements and texts, and
  nothing else is. No node of the tree \<open>clean_html\<close> goes on with, and none of the
  cleaned tree, lies in an element of a removed kind.
\<close>

theorem removed_subtrees_leave_no_trace:
  "remove_elements cfg \<noteq> [] \<longrightarrow>
     walk [] (decompose_all (remove_elements cfg) soup) =
       filter (\<lambda>(chain, it). set chain \<inter> set (remove_elements cfg) = {}) (walk [] soup)
     \<and> (\<forall>(chain, it) \<in> set (walk [] (decompose_all (remove_elements cfg) soup)).
          set chain \<inter> set (remove_elements cfg) = {})
     \<and> (clean_soup cfg url soup = Inr soup' \<longrightarrow>
          (\<forall>(chain, it) \<in> set (walk [] soup'). set chain \<inter> set (remove_elements cfg) = {}))"
proof (intro impI conjI)
  show eq: "walk [] (decompose_all (remove_elements cfg) soup) =
       filter (\<lambda>(chain, it). set chain \<inter> set (remove_elements cfg) = {}) (walk [] soup)"
    by (simp add: walk_decompose_all)
  show all: "\<forall>(chain, it) \<in> set (walk [] (decompose_all (remove_elements cfg) soup)).
          set chain \<inter> set (remove_elements cfg) = {}"
    unfolding eq by auto
  assume "clean_soup cfg url soup = Inr soup'"
  then obtain mid where mid: "process_code_blocks cfg (decompose_all (remove_elements cfg) soup) = Inr mid"
    and out: "soup' = mid \<or> (\<exists>b. soup' = convert_relative_urls b mid)"
    by (auto simp: clean_soup_def split: sum.splits option.splits if_splits)
  from out have "map fst (walk [] soup') = map fst (walk [] mid)"
    by (auto simp: walk_convert_relative_urls)
  then have "fst ` set (walk [] soup') = fst ` set (walk [] mid)"
    by (metis set_map)
  with walk_process_code_blocks [OF mid, of "[]"]
  have "fst ` set (walk [] soup') \<subseteq> fst ` set (walk [] (decompose_all (remove_elements cfg) soup))"
    by simp
  with all show "\<forall>(chain, it) \<in> set (walk [] soup'). set chain \<inter> set (remove_elements cfg) = {}"
    by fastforce
qed

theorem removed_subtrees_leave_no_trace_witness:
  "walk [] (decompose_all (remove_elements default_config)
      [Tag ''div'' [] []
         [Tag ''nav'' [] [] [Tag ''a'' [(''href'', ''/'')] [] [NavigableString ''Home'']],
          Tag ''p'' [] [] [NavigableString ''text'', Tag ''script'' [] [] [NavigableString ''js'']]]])
   = [([''div''], Element ''div'' [] []),
      ([''div'', ''p''], Element ''p'' [] []),
      ([''div'', ''p''], Text ''text'')]"
proof -
  let ?soup = "[Tag ''div'' [] []
         [Tag ''nav'' [] [] [Tag ''a'' [(''href'', ''/'')] [] [NavigableString ''Home'']],
          Tag ''p'' [] [] [NavigableString ''text'', Tag ''script'' [] [] [NavigableString ''js'']]]]"
  have ne: "remove_elements default_config \<noteq> []" by (simp add: default_config_def)
  have f: "filter (\<lambda>(chain, it). set chain \<inter> set (remove_elements default_config) = {}) (walk [] ?soup)
     = [([''div''], Element ''div'' [] []),
        ([''div'', ''p''], Element ''p'' [] []),
        ([''div'', ''p''], Text ''text'')]"
    by (simp add: default_config_def)
  from removed_subtrees_leave_no_trace [of default_config ?soup] ne
  have "walk [] (decompose_all (remove_elements default_config) ?soup) =
       filter (\<lambda>(chain, it). set chain \<inter> set (remove_elements default_config) = {}) (walk [] ?soup)"
    by blast
  with f show ?thesis by (simp only:)
qed

section \<open>The cleanup pass run twice\<close>

text \<open>
  C1, as stated, fails. A fenced block whose code ends with two blank lines loses one
  of them in each pass, so the second pass still changes the text; and the removal of
  a marker can bring the two halves of another marker together.
\<close>

theorem post_process_twice_counterexample:
  "post_process ''```py\<newline>x = 1\<newline>\<newline>\<newline>```'' = ''```py\<newline>x = 1\<newline>\<newline>```''
   \<and> post_process ''```py\<newline>x = 1\<newline>\<newline>```'' = ''```py\<newline>x = 1\<newline>```''
   \<and> post_process (post_process ''```py\<newline>x = 1\<newline>\<newline>\<newline>```'')
       \<noteq> post_process ''```py\<newline>x = 1\<newline>\<newline>\<newline>```''"
  by code_simp

lemma post_process_twice_marker:
  "post_process ''[co[code]de]x'' = ''[code]x'' \<and> post_process ''[code]x'' = ''x''"
  by code_simp

text \<open>
  The rest of the section shows on which texts the pass is idempotent. First the pass
  that closes the gap after an opening fence.
\<close>

lemma is_word_newline [simp]: "\<not> is_word CHR ''\<newline>''"
  by (simp add: is_word_def)

lemma is_word_backtick [simp]: "\<not> is_word CHR 0x60"
  by (simp add: is_word_def)

lemma word_not_backtick: "list_all is_word w \<Longrightarrow> CHR 0x60 \<notin> set w"
  by (auto simp: list_all_iff)

lemma word_not_newline: "list_all is_word w \<Longrightarrow> CHR ''\<newline>'' \<notin> set w"
  by (auto simp: list_all_iff)

lemma fence_open_match_decomp:
  assumes "fence_open_match s"
  shows "s = ''```'' @ takeWhile is_word (drop 3 s) @ ''\<newline>\<newline>''
               @ drop 2 (dropWhile is_word (drop 3 s))"
proof -
  from assms have 1: "s = ''```'' @ drop 3 s"
    by (auto simp: fence_open_match_def prefix_def)
  from assms have 2: "dropWhile is_word (drop 3 s)
      = ''\<newline>\<newline>'' @ drop 2 (dropWhile is_word (drop 3 s))"
    by (auto simp: fence_open_match_def prefix_def)
  have "drop 3 s = takeWhile is_word (drop 3 s) @ dropWhile is_word (drop 3 s)" by simp
  with 2 have "drop 3 s = takeWhile is_word (drop 3 s) @ ''\<newline>\<newline>''
      @ drop 2 (dropWhile is_word (drop 3 s))" by metis
  with 1 show ?thesis by metis
qed

lemma fence_open_match_iff:
  "fence_open_match s \<longleftrightarrow>
     (\<exists>w t. list_all is_word w \<and> s = CHR 0x60 # CHR 0x60 # CHR 0x60 # w @ CHR ''\<newline>'' # CHR ''\<newline>'' # t)"
proof
  assume "fence_open_match s"
  from fence_open_match_decomp [OF this]
  have "s = CHR 0x60 # CHR 0x60 # CHR 0x60 # takeWhile is_word (drop 3 s)
              @ CHR ''\<newline>'' # CHR ''\<newline>'' # drop 2 (dropWhile is_word (drop 3 s))"
    by simp
  moreover have "list_all is_word (takeWhile is_word (drop 3 s))"
    by (auto simp: list_all_iff dest: set_takeWhileD)
  ultimately
  show "\<exists>w t. list_all is_word w \<and> s = CHR 0x60 # CHR 0x60 # CHR 0x60 # w @ CHR ''\<newline>'' # CHR ''\<newline>'' # t"
    by blast
next
  assume "\<exists>w t. list_all is_word w \<and> s = CHR 0x60 # CHR 0x60 # CHR 0x60 # w @ CHR ''\<newline>'' # CHR ''\<newline>'' # t"
  then obtain w t where w: "list_all is_word w"
    and s: "s = CHR 0x60 # CHR 0x60 # CHR 0x60 # w @ CHR ''\<newline>'' # CHR ''\<newline>'' # t"
    by blast
  from w have "dropWhile is_word (w @ ''\<newline>\<newline>'' @ t) = ''\<newline>\<newline>'' @ t"
    by (simp add: dropWhile_append3 list_all_iff)
  with s show "fence_open_match s" by (simp add: fence_open_match_def)
qed

lemma sub_fence_open_match:
  assumes "list_all is_word w"
  shows "sub_fence_open (CHR 0x60 # CHR 0x60 # CHR 0x60 # w @ CHR ''\<newline>'' # CHR ''\<newline>'' # t)
           = CHR 0x60 # CHR 0x60 # CHR 0x60 # w @ CHR ''\<newline>'' # sub_fence_open t"
proof -
  have m: "fence_open_match (''```'' @ w @ ''\<newline>\<newline>'' @ t)"
    using assms by (auto simp: fence_open_match_iff)
  from assms have d: "dropWhile is_word (w @ ''\<newline>\<newline>'' @ t) = ''\<newline>\<newline>'' @ t"
    by (simp add: dropWhile_append3 list_all_iff)
  from assms have tk: "takeWhile is_word (w @ ''\<newline>\<newline>'' @ t) = w"
    by (simp add: list_all_iff)
  have "sub_fence_open (CHR 0x60 # (''``'' @ w @ ''\<newline>\<newline>'' @ t))
      = ''```'' @ takeWhile is_word (drop 3 (CHR 0x60 # (''``'' @ w @ ''\<newline>\<newline>'' @ t))) @ ''\<newline>'' @
           sub_fence_open (drop 2 (dropWhile is_word (drop 3 (CHR 0x60 # (''``'' @ w @ ''\<newline>\<newline>'' @ t)))))"
    using m by (subst sub_fence_open.simps) simp
  then show ?thesis using d tk by simp
qed

lemma sub_fence_open_nomatch:
  "\<not> fence_open_match (c # cs) \<Longrightarrow> sub_fence_open (c # cs) = c # sub_fence_open cs"
  by simp

declare sub_fence_open.simps(2) [simp del]

lemma fence_open_match_backtick: "fence_open_match (c # cs) \<Longrightarrow> c = CHR 0x60"
  by (simp add: fence_open_match_def)

lemma sub_fence_open_hd:
  "sub_fence_open t = a # r \<Longrightarrow> \<exists>t'. t = a # t'"
proof (cases t)
  case Nil
  then show "sub_fence_open t = a # r \<Longrightarrow> ?thesis" by simp
next
  case (Cons c cs)
  assume "sub_fence_open t = a # r"
  with Cons show ?thesis
    by (cases "fence_open_match (c # cs)")
       (auto simp: sub_fence_open.simps(2) dest: fence_open_match_backtick)
qed

lemma sub_fence_open_transfer:
  "CHR 0x60 \<notin> set v \<Longrightarrow> sub_fence_open t = v @ r \<Longrightarrow> \<exists>t'. t = v @ t' \<and> sub_fence_open t' = r"
proof (induction v arbitrary: t r)
  case Nil
  then show ?case by simp
next
  case (Cons a v)
  from Cons.prems(2) obtain cs where t: "t = a # cs"
    using sub_fence_open_hd [of t a "v @ r"] by auto
  from Cons.prems(1) have "\<not> fence_open_match (a # cs)"
    by (auto dest: fence_open_match_backtick)
  with Cons.prems(2) t have "sub_fence_open cs = v @ r" by (simp add: sub_fence_open_nomatch)
  with Cons.IH [of cs r] Cons.prems(1) t show ?case by auto
qed

lemma word_newline_not_backtick:
  "list_all is_word w \<Longrightarrow> w @ CHR ''\<newline>'' # y \<noteq> CHR 0x60 # x"
  by (cases w) auto

text \<open>A match in the output of the pass is a match in its input.\<close>

lemma fence_open_match_sub_fence_open:
  assumes "fence_open_match (sub_fence_open r)"
  shows "fence_open_match r"
proof (rule ccontr)
  assume no: "\<not> fence_open_match r"
  from assms obtain w t where w: "list_all is_word w"
    and out: "sub_fence_open r = ''```'' @ w @ ''\<newline>\<newline>'' @ t"
    by (auto simp: fence_open_match_iff)
  from out obtain cs where r: "r = CHR 0x60 # cs"
    using sub_fence_open_hd [of r "CHR 0x60"] by auto
  with no out have 1: "sub_fence_open cs = ''``'' @ w @ ''\<newline>\<newline>'' @ t"
    by (simp add: sub_fence_open_nomatch)
  then obtain cs2 where cs: "cs = CHR 0x60 # cs2"
    using sub_fence_open_hd [of cs "CHR 0x60"] by auto
  have "\<not> fence_open_match cs"
  proof
    assume "fence_open_match cs"
    then obtain w' t' where "list_all is_word w'" "cs = ''```'' @ w' @ ''\<newline>\<newline>'' @ t'"
      by (auto simp: fence_open_match_iff)
    then have "sub_fence_open cs = ''```'' @ w' @ ''\<newline>'' @ sub_fence_open t'"
      by (simp add: sub_fence_open_match)
    with 1 show False
      using word_newline_not_backtick [OF w] word_newline_not_backtick [OF w, symmetric]
      by simp
  qed
  with cs 1 have 2: "sub_fence_open cs2 = ''`'' @ w @ ''\<newline>\<newline>'' @ t"
    by (simp add: sub_fence_open_nomatch)
  then obtain cs3 where cs2: "cs2 = CHR 0x60 # cs3"
    using sub_fence_open_hd [of cs2 "CHR 0x60"] by auto
  have "\<not> fence_open_match cs2"
  proof
    assume "fence_open_match cs2"
    then obtain w' t' where "list_all is_word w'" "cs2 = ''```'' @ w' @ ''\<newline>\<newline>'' @ t'"
      by (auto simp: fence_open_match_iff)
    then have "sub_fence_open cs2 = ''```'' @ w' @ ''\<newline>'' @ sub_fence_open t'"
      by (simp add: sub_fence_open_match)
    with 2 show False
      using word_newline_not_backtick [OF w] word_newline_not_backtick [OF w, symmetric]
      by simp
  qed
  with cs2 2 have 3: "sub_fence_open cs3 = (w @ ''\<newline>\<newline>'') @ t"
    by (simp add: sub_fence_open_nomatch)
  from w have "CHR 0x60 \<notin> set (w @ ''\<newline>\<newline>'')" by (auto dest: word_not_backtick)
  from sub_fence_open_transfer [OF this 3] obtain t' where "cs3 = (w @ ''\<newline>\<newline>'') @ t'"
    by blast
  with r cs cs2 have "r = ''```'' @ w @ ''\<newline>\<newline>'' @ t'" by simp
  with w have "fence_open_match r" by (auto simp: fence_open_match_iff)
  with no show False by blast
qed

text \<open>The pass does not bring a marker into the text.\<close>

lemma sub_fence_open_sublist:
  assumes nb: "CHR 0x60 \<notin> set s"
    and split: "\<And>s1 s2. s = s1 @ CHR ''\<newline>'' # s2 \<Longrightarrow> s1 \<noteq> [] \<Longrightarrow> list_all is_word s1 \<Longrightarrow> s2 = []"
  shows "sublist s (sub_fence_open t) \<Longrightarrow> sublist s t"
proof (induction t rule: sub_fence_open.induct)
  case 1
  then show ?case by simp
next
  case (2 c cs)
  show ?case
  proof (cases "fence_open_match (c # cs)")
    case False
    then have out: "sub_fence_open (c # cs) = c # sub_fence_open cs"
      by (rule sub_fence_open_nomatch)
    with "2.prems" have "prefix s (sub_fence_open (c # cs)) \<or> sublist s (sub_fence_open cs)"
      by (simp add: sublist_Cons_right)
    then show ?thesis
    proof
      assume "prefix s (sub_fence_open (c # cs))"
      then obtain r where "sub_fence_open (c # cs) = s @ r" by (auto simp: prefix_def)
      from sub_fence_open_transfer [OF nb this] show ?thesis by auto
    next
      assume "sublist s (sub_fence_open cs)"
      with "2.IH"(2) [OF False] have "sublist s cs" .
      then show ?thesis by (simp add: sublist_Cons_right)
    qed
  next
    case True
    define w where "w = takeWhile is_word (drop 3 (c # cs))"
    define rest where "rest = drop 2 (dropWhile is_word (drop 3 (c # cs)))"
    have dec: "c # cs = ''```'' @ w @ ''\<newline>\<newline>'' @ rest"
      unfolding w_def rest_def by (rule fence_open_match_decomp [OF True])
    have w: "list_all is_word w"
      unfolding w_def by (auto simp: list_all_iff dest: set_takeWhileD)
    have out: "sub_fence_open (c # cs) = ''```'' @ w @ ''\<newline>'' @ sub_fence_open rest"
      by (subst dec) (simp add: sub_fence_open_match [OF w])
    have ih: "sublist s (sub_fence_open rest) \<Longrightarrow> sublist s rest"
      using "2.IH"(1) [OF True] unfolding rest_def by simp
    have in_rest: "sublist s rest \<Longrightarrow> sublist s (c # cs)"
      unfolding dec by (metis sublist_append)
    have in_w: "sublist s w \<Longrightarrow> sublist s (c # cs)"
      unfolding dec by (metis sublist_append)
    show ?thesis
    proof (cases s)
      case Nil
      then show ?thesis by simp
    next
      case (Cons a s')
      with nb have a: "a \<noteq> CHR 0x60" by auto
      from "2.prems" out have "sublist s (CHR 0x60 # CHR 0x60 # CHR 0x60 # (w @ CHR ''\<newline>'' # sub_fence_open rest))"
        by simp
      with Cons a have "sublist s (w @ CHR ''\<newline>'' # sub_fence_open rest)"
        by (simp add: sublist_Cons_right)
      then consider (inw) "sublist s w"
        | (tail) "sublist s (CHR ''\<newline>'' # sub_fence_open rest)"
        | (cross) s1 s2 where "s = s1 @ s2" "suffix s1 w" "prefix s2 (CHR ''\<newline>'' # sub_fence_open rest)"
          "s1 \<noteq> []" "s2 \<noteq> []"
        by (auto simp: sublist_append) (metis append_Nil append_Nil2 prefix_imp_sublist suffix_imp_sublist)
      then show ?thesis
      proof cases
        case inw
        then show ?thesis by (rule in_w)
      next
        case tail
        then have "prefix s (CHR ''\<newline>'' # sub_fence_open rest) \<or> sublist s (sub_fence_open rest)"
          by (simp add: sublist_Cons_right)
        then show ?thesis
        proof
          assume "sublist s (sub_fence_open rest)"
          then show ?thesis using ih in_rest by blast
        next
          assume "prefix s (CHR ''\<newline>'' # sub_fence_open rest)"
          with Cons have an: "a = CHR ''\<newline>''" and "prefix s' (sub_fence_open rest)" by simp_all
          then obtain r where "sub_fence_open rest = s' @ r" by (auto simp: prefix_def)
          moreover from nb Cons have "CHR 0x60 \<notin> set s'" by simp
          ultimately obtain r' where "rest = s' @ r'"
            using sub_fence_open_transfer by blast
          with dec an Cons have "c # cs = (''```'' @ w @ ''\<newline>'') @ s @ r'" by simp
          then show ?thesis unfolding sublist_def by blast
        qed
      next
        case cross
        from cross(3,5) obtain s2' where s2: "s2 = CHR ''\<newline>'' # s2'"
          by (cases s2) auto
        from cross(2) w have "list_all is_word s1"
          by (auto simp: suffix_def)
        from split [OF _ cross(4) this, of s2'] cross(1) s2 have "s2' = []" by simp
        with cross(1) s2 have "s = s1 @ ''\<newline>''" by simp
        moreover from cross(2) obtain w0 where "w = w0 @ s1" by (auto simp: suffix_def)
        ultimately have "c # cs = (''```'' @ w0) @ s @ (''\<newline>'' @ rest)"
          using dec by simp
        then show ?thesis unfolding sublist_def by blast
      qed
    qed
  qed
qed

lemma sub_fence_open_no_marker:
  assumes "CHR 0x60 \<notin> set s" "CHR ''\<newline>'' \<notin> set s" "\<not> sublist s t"
  shows "\<not> sublist s (sub_fence_open t)"
proof
  assume "sublist s (sub_fence_open t)"
  moreover have "s2 = []" if "s = s1 @ CHR ''\<newline>'' # s2" for s1 s2
    using that assms(2) by auto
  ultimately have "sublist s t" using assms(1) sub_fence_open_sublist by blast
  with assms(3) show False by blast
qed

text \<open>The pass that closes the gap before a closing fence.\<close>

lemma fence_close_match_iff:
  "fence_close_match s \<longleftrightarrow>
     (\<exists>t. s = CHR ''\<newline>'' # CHR ''\<newline>'' # CHR 0x60 # CHR 0x60 # CHR 0x60 # t)"
  by (auto simp: fence_close_match_def prefix_def)

lemma sub_fence_close_match:
  "sub_fence_close (CHR ''\<newline>'' # CHR ''\<newline>'' # CHR 0x60 # CHR 0x60 # CHR 0x60 # t)
     = CHR ''\<newline>'' # CHR 0x60 # CHR 0x60 # CHR 0x60 # sub_fence_close t"
  by (simp add: fence_close_match_def)

lemma sub_fence_close_nomatch:
  "\<not> fence_close_match (c # cs) \<Longrightarrow> sub_fence_close (c # cs) = c # sub_fence_close cs"
  by simp

declare sub_fence_close.simps(2) [simp del]

lemma fence_close_match_newline: "fence_close_match (c # cs) \<Longrightarrow> c = CHR ''\<newline>''"
  by (simp add: fence_close_match_def)

lemma sub_fence_close_hd:
  "sub_fence_close t = a # r \<Longrightarrow> \<exists>t'. t = a # t'"
proof (cases t)
  case Nil
  then show "sub_fence_close t = a # r \<Longrightarrow> ?thesis" by simp
next
  case (Cons c cs)
  assume "sub_fence_close t = a # r"
  with Cons show ?thesis
    by (cases "fence_close_match (c # cs)")
       (auto simp: sub_fence_close_match sub_fence_close_nomatch fence_close_match_iff)
qed

lemma sub_fence_close_transfer:
  "CHR ''\<newline>'' \<notin> set v \<Longrightarrow> sub_fence_close t = v @ r \<Longrightarrow>
   \<exists>t'. t = v @ t' \<and> sub_fence_close t' = r"
proof (induction v arbitrary: t r)
  case Nil
  then show ?case by simp
next
  case (Cons a v)
  from Cons.prems(2) obtain cs where t: "t = a # cs"
    using sub_fence_close_hd [of t a "v @ r"] by auto
  from Cons.prems(1) have "\<not> fence_close_match (a # cs)"
    by (auto dest: fence_close_match_newline)
  with Cons.prems(2) t have "sub_fence_close cs = v @ r" by (simp add: sub_fence_close_nomatch)
  with Cons.IH [of cs r] Cons.prems(1) t show ?case by auto
qed

lemma sub_fence_close_backticks:
  "sub_fence_close (CHR 0x60 # t) = CHR 0x60 # sub_fence_close t"
  by (auto intro: sub_fence_close_nomatch dest: fence_close_match_newline)

text \<open>Every suffix of the output of the pass is the output of the pass on a suffix of its input.\<close>

lemma sub_fence_close_suffix:
  "suffix u (sub_fence_close t) \<Longrightarrow> \<exists>r. suffix r t \<and> u = sub_fence_close r"
proof (induction t rule: sub_fence_close.induct)
  case 1
  then show ?case by simp
next
  case (2 c cs)
  show ?case
  proof (cases "fence_close_match (c # cs)")
    case False
    then have out: "sub_fence_close (c # cs) = c # sub_fence_close cs"
      by (rule sub_fence_close_nomatch)
    with "2.prems" have "u = sub_fence_close (c # cs) \<or> suffix u (sub_fence_close cs)"
      by (simp add: suffix_Cons)
    then show ?thesis
    proof
      assume "u = sub_fence_close (c # cs)"
      then show ?thesis by blast
    next
      assume "suffix u (sub_fence_close cs)"
      with "2.IH"(2) [OF False] obtain r where "suffix r cs" "u = sub_fence_close r" by blast
      then show ?thesis by (auto simp: suffix_Cons)
    qed
  next
    case True
    then obtain rest where dec: "c # cs = CHR ''\<newline>'' # CHR ''\<newline>'' # CHR 0x60 # CHR 0x60 # CHR 0x60 # rest"
      by (auto simp: fence_close_match_iff)
    then have rest: "rest = drop 5 (c # cs)" by simp
    have out: "sub_fence_close (c # cs) = CHR ''\<newline>'' # CHR 0x60 # CHR 0x60 # CHR 0x60 # sub_fence_close rest"
      unfolding dec by (rule sub_fence_close_match)
    from "2.prems" out consider
        "u = sub_fence_close (c # cs)"
      | "u = CHR 0x60 # CHR 0x60 # CHR 0x60 # sub_fence_close rest"
      | "u = CHR 0x60 # CHR 0x60 # sub_fence_close rest"
      | "u = CHR 0x60 # sub_fence_close rest"
      | "suffix u (sub_fence_close rest)"
      by (auto simp: suffix_Cons)
    then show ?thesis
    proof cases
      case 1
      then show ?thesis by blast
    next
      case 2
      then have "u = sub_fence_close (CHR 0x60 # CHR 0x60 # CHR 0x60 # rest)"
        by (simp add: sub_fence_close_backticks)
      moreover have "suffix (CHR 0x60 # CHR 0x60 # CHR 0x60 # rest) (c # cs)"
        unfolding dec by (simp add: suffix_Cons)
      ultimately show ?thesis by blast
    next
      case 3
      then have "u = sub_fence_close (CHR 0x60 # CHR 0x60 # rest)"
        by (simp add: sub_fence_close_backticks)
      moreover have "suffix (CHR 0x60 # CHR 0x60 # rest) (c # cs)"
        unfolding dec by (simp add: suffix_Cons)
      ultimately show ?thesis by blast
    next
      case 4
      then have "u = sub_fence_close (CHR 0x60 # rest)"
        by (simp add: sub_fence_close_backticks)
      moreover have "suffix (CHR 0x60 # rest) (c # cs)"
        unfolding dec by (simp add: suffix_Cons)
      ultimately show ?thesis by blast
    next
      case 5
      with "2.IH"(1) [OF True] rest obtain r where "suffix r rest" "u = sub_fence_close r"
        by auto
      moreover have "suffix rest (c # cs)" unfolding dec by (simp add: suffix_Cons)
      ultimately show ?thesis using suffix_order.order_trans by blast
    qed
  qed
qed

lemma sub_fence_close_no_marker:
  assumes "CHR ''\<newline>'' \<notin> set s" "\<not> sublist s t"
  shows "\<not> sublist s (sub_fence_close t)"
proof
  assume "sublist s (sub_fence_close t)"
  then obtain u where u: "suffix u (sub_fence_close t)" and p: "prefix s u"
    by (auto simp: sublist_altdef')
  from sub_fence_close_suffix [OF u] obtain r where r: "suffix r t" and ur: "u = sub_fence_close r"
    by blast
  from p ur obtain x where "sub_fence_close r = s @ x" by (auto simp: prefix_def)
  from sub_fence_close_transfer [OF assms(1) this] have "prefix s r" by auto
  with r have "sublist s t" by (auto simp: sublist_altdef')
  with assms(2) show False by blast
qed


text \<open>A text is a fixed point of a pass when its pattern matches at none of its suffixes.\<close>

lemma sub_fence_open_fixed:
  "(\<And>u. suffix u y \<Longrightarrow> \<not> fence_open_match u) \<Longrightarrow> sub_fence_open y = y"
proof (induction y)
  case Nil
  then show ?case by simp
next
  case (Cons c cs)
  have "\<not> fence_open_match (c # cs)" by (rule Cons.prems) simp
  moreover have "sub_fence_open cs = cs"
  proof (rule Cons.IH)
    fix u
    assume "suffix u cs"
    then have "suffix u (c # cs)" by (simp add: suffix_Cons)
    then show "\<not> fence_open_match u" by (rule Cons.prems)
  qed
  ultimately show ?case by (simp add: sub_fence_open_nomatch)
qed

lemma sub_fence_close_fixed:
  "(\<And>u. suffix u y \<Longrightarrow> \<not> fence_close_match u) \<Longrightarrow> sub_fence_close y = y"
proof (induction y)
  case Nil
  then show ?case by simp
next
  case (Cons c cs)
  have "\<not> fence_close_match (c # cs)" by (rule Cons.prems) simp
  moreover have "sub_fence_close cs = cs"
  proof (rule Cons.IH)
    fix u
    assume "suffix u cs"
    then have "suffix u (c # cs)" by (simp add: suffix_Cons)
    then show "\<not> fence_close_match u" by (rule Cons.prems)
  qed
  ultimately show ?case by (simp add: sub_fence_close_nomatch)
qed

lemma length_sub_fence_open: "length (sub_fence_open t) \<le> length t"
proof (induction t rule: sub_fence_open.induct)
  case 1
  then show ?case by simp
next
  case (2 c cs)
  show ?case
  proof (cases "fence_open_match (c # cs)")
    case False
    with 2 show ?thesis by (simp add: sub_fence_open_nomatch)
  next
    case True
    define w where "w = takeWhile is_word (drop 3 (c # cs))"
    define rest where "rest = drop 2 (dropWhile is_word (drop 3 (c # cs)))"
    have dec: "c # cs = ''```'' @ w @ ''\<newline>\<newline>'' @ rest"
      unfolding w_def rest_def by (rule fence_open_match_decomp [OF True])
    have w: "list_all is_word w"
      unfolding w_def by (auto simp: list_all_iff dest: set_takeWhileD)
    have out: "sub_fence_open (c # cs) = ''```'' @ w @ ''\<newline>'' @ sub_fence_open rest"
      by (subst dec) (simp add: sub_fence_open_match [OF w])
    have "length (sub_fence_open rest) \<le> length rest"
      using "2.IH"(1) [OF True] unfolding rest_def by simp
    then have "length (''```'' @ w @ ''\<newline>'' @ sub_fence_open rest)
                 \<le> length (''```'' @ w @ ''\<newline>\<newline>'' @ rest)" by simp
    with out dec show ?thesis by metis
  qed
qed

lemma sub_code_open_fixed: "\<not> sublist ''[code]'' t \<Longrightarrow> sub_code_open t = t"
proof (induction t)
  case Nil
  then show ?case by simp
next
  case (Cons c cs)
  then have np: "\<not> prefix ''[code]'' (c # cs)" and ns: "\<not> sublist ''[code]'' cs"
    by (auto simp: sublist_Cons_right)
  have "sub_code_open (c # cs) = c # sub_code_open cs"
    by (subst sub_code_open.simps) (simp only: np if_False)
  with Cons.IH [OF ns] show ?case by (simp only:)
qed

lemma sub_code_close_fixed: "\<not> sublist ''[/code]'' t \<Longrightarrow> sub_code_close t = t"
proof (induction t)
  case Nil
  then show ?case by simp
next
  case (Cons c cs)
  have np: "\<not> prefix ''[/code]'' (dropWhile is_space (c # cs))"
  proof
    assume "prefix ''[/code]'' (dropWhile is_space (c # cs))"
    then have "sublist ''[/code]'' (takeWhile is_space (c # cs) @ dropWhile is_space (c # cs))"
      by (metis prefix_imp_sublist sublist_append)
    with Cons.prems show False by (simp only: takeWhile_dropWhile_id)
  qed
  from Cons.prems have ns: "\<not> sublist ''[/code]'' cs" by (auto simp: sublist_Cons_right)
  have "sub_code_close (c # cs) = c # sub_code_close cs"
    by (subst sub_code_close.simps) (simp only: np if_False)
  with Cons.IH [OF ns] show ?case by (simp only:)
qed

lemma occurs_iff: "occurs m s \<longleftrightarrow> (\<exists>u. suffix u s \<and> m u)"
  by (induction s) (auto simp: suffix_Cons)

lemma length_sub_code_open: "length (sub_code_open t) \<le> length t"
proof (induction t rule: sub_code_open.induct)
  case 1
  then show ?case by simp
next
  case (2 c cs)
  show ?case
  proof (cases "prefix ''[code]'' (c # cs)")
    case False
    then have "sub_code_open (c # cs) = c # sub_code_open cs"
      by (subst sub_code_open.simps) (simp only: if_False)
    with "2.IH"(2) [OF False] show ?thesis by simp
  next
    case True
    then have "sub_code_open (c # cs) = sub_code_open (dropWhile is_space (drop 6 (c # cs)))"
      by (subst sub_code_open.simps) (simp only: if_True)
    with "2.IH"(1) [OF True] have "length (sub_code_open (c # cs))
        \<le> length (dropWhile is_space (drop 6 (c # cs)))" by (simp only:)
    also have "\<dots> \<le> length (drop 6 (c # cs))" by (rule length_dropWhile_le)
    also have "\<dots> \<le> length (c # cs)" by simp
    finally show ?thesis .
  qed
qed

lemma sub_code_open_shorter:
  assumes "prefix ''[code]'' (c # cs)"
  shows "length (sub_code_open (c # cs)) < length (c # cs)"
proof -
  from assms have "sub_code_open (c # cs) = sub_code_open (dropWhile is_space (drop 6 (c # cs)))"
    by (subst sub_code_open.simps) (simp only: if_True)
  then have "length (sub_code_open (c # cs))
      = length (sub_code_open (dropWhile is_space (drop 6 (c # cs))))" by (simp only:)
  also have "\<dots> \<le> length (dropWhile is_space (drop 6 (c # cs)))"
    by (rule length_sub_code_open)
  also have "\<dots> \<le> length (drop 6 (c # cs))" by (rule length_dropWhile_le)
  also have "\<dots> < length (c # cs)" by simp
  finally show ?thesis .
qed

lemma sub_code_open_same_length:
  "length (sub_code_open t) = length t \<Longrightarrow> \<not> sublist ''[code]'' t"
proof (induction t)
  case Nil
  then show ?case by simp
next
  case (Cons c cs)
  have np: "\<not> prefix ''[code]'' (c # cs)"
    using sub_code_open_shorter [of c cs] Cons.prems by auto
  then have "sub_code_open (c # cs) = c # sub_code_open cs"
    by (subst sub_code_open.simps) (simp only: if_False)
  with Cons.prems have "length (sub_code_open cs) = length cs" by simp
  with Cons.IH have "\<not> sublist ''[code]'' cs" .
  with np show ?case by (simp only: sublist_Cons_right) blast
qed

lemma length_sub_code_close: "length (sub_code_close t) \<le> length t"
proof (induction t rule: sub_code_close.induct)
  case 1
  then show ?case by simp
next
  case (2 c cs)
  show ?case
  proof (cases "prefix ''[/code]'' (dropWhile is_space (c # cs))")
    case False
    then have "sub_code_close (c # cs) = c # sub_code_close cs"
      by (subst sub_code_close.simps) (simp only: if_False)
    with "2.IH"(2) [OF False] show ?thesis by simp
  next
    case True
    then have "sub_code_close (c # cs) = sub_code_close (drop 7 (dropWhile is_space (c # cs)))"
      by (subst sub_code_close.simps) (simp only: if_True)
    with "2.IH"(1) [OF True] have "length (sub_code_close (c # cs))
        \<le> length (drop 7 (dropWhile is_space (c # cs)))" by (simp only:)
    also have "\<dots> \<le> length (dropWhile is_space (c # cs))" by simp
    also have "\<dots> \<le> length (c # cs)" by (rule length_dropWhile_le)
    finally show ?thesis .
  qed
qed

lemma sub_code_close_shorter:
  assumes "prefix ''[/code]'' (dropWhile is_space (c # cs))"
  shows "length (sub_code_close (c # cs)) < length (c # cs)"
proof -
  define r where "r = dropWhile is_space (c # cs)"
  from assms have p: "prefix ''[/code]'' r" by (simp only: r_def)
  then have ne: "r \<noteq> []" by auto
  from p have "sub_code_close (c # cs) = sub_code_close (drop 7 r)"
    unfolding r_def by (subst sub_code_close.simps) (simp only: if_True)
  then have "length (sub_code_close (c # cs)) = length (sub_code_close (drop 7 r))"
    by (simp only:)
  also have "\<dots> \<le> length (drop 7 r)" by (rule length_sub_code_close)
  also have "\<dots> < length r" using ne by simp
  also have "\<dots> \<le> length (c # cs)" unfolding r_def by (rule length_dropWhile_le)
  finally show ?thesis .
qed

lemma is_space_bracket [simp]: "\<not> is_space CHR ''[''"
  by (simp add: is_space_def)

lemma sub_code_close_same_length:
  "length (sub_code_close t) = length t \<Longrightarrow> \<not> sublist ''[/code]'' t"
proof (induction t)
  case Nil
  then show ?case by simp
next
  case (Cons c cs)
  have nm: "\<not> prefix ''[/code]'' (dropWhile is_space (c # cs))"
    using sub_code_close_shorter [of c cs] Cons.prems by auto
  have np: "\<not> prefix ''[/code]'' (c # cs)"
  proof
    assume p: "prefix ''[/code]'' (c # cs)"
    then have "c = CHR ''[''" by simp
    then have "dropWhile is_space (c # cs) = c # cs" by simp
    with p nm show False by simp
  qed
  from nm have "sub_code_close (c # cs) = c # sub_code_close cs"
    by (subst sub_code_close.simps) (simp only: if_False)
  with Cons.prems have "length (sub_code_close cs) = length cs" by simp
  with Cons.IH have "\<not> sublist ''[/code]'' cs" .
  with np show ?case by (simp only: sublist_Cons_right) blast
qed

lemma length_sub_fence_close: "length (sub_fence_close t) \<le> length t"
proof (induction t rule: sub_fence_close.induct)
  case 1
  then show ?case by simp
next
  case (2 c cs)
  show ?case
  proof (cases "fence_close_match (c # cs)")
    case False
    with 2 show ?thesis by (simp add: sub_fence_close_nomatch)
  next
    case True
    then obtain rest where dec: "c # cs = CHR ''\<newline>'' # CHR ''\<newline>'' # CHR 0x60 # CHR 0x60 # CHR 0x60 # rest"
      by (auto simp: fence_close_match_iff)
    then have rest: "rest = drop 5 (c # cs)" by simp
    have "length (sub_fence_close rest) \<le> length rest"
      using "2.IH"(1) [OF True] rest by simp
    then show ?thesis unfolding dec by (simp add: sub_fence_close_match)
  qed
qed

lemma sub_fence_close_same_length:
  "length (sub_fence_close t) = length t \<Longrightarrow> \<not> sublist ''\<newline>\<newline>```'' t"
proof (induction t)
  case Nil
  then show ?case by simp
next
  case (Cons c cs)
  have nm: "\<not> fence_close_match (c # cs)"
  proof
    assume "fence_close_match (c # cs)"
    then obtain rest where dec: "c # cs = CHR ''\<newline>'' # CHR ''\<newline>'' # CHR 0x60 # CHR 0x60 # CHR 0x60 # rest"
      by (auto simp: fence_close_match_iff)
    have "length (sub_fence_close (c # cs)) < length (c # cs)"
      unfolding dec using length_sub_fence_close [of rest] by (simp add: sub_fence_close_match)
    with Cons.prems show False by simp
  qed
  then have "sub_fence_close (c # cs) = c # sub_fence_close cs"
    by (rule sub_fence_close_nomatch)
  with Cons.prems have "length (sub_fence_close cs) = length cs" by simp
  with Cons.IH have "\<not> sublist ''\<newline>\<newline>```'' cs" .
  with nm show ?case by (simp only: sublist_Cons_right fence_close_match_def) blast
qed

lemma sub_fence_open_same_length:
  "length (sub_fence_open t) = length t \<Longrightarrow> \<not> occurs fence_open_match t"
proof (induction t)
  case Nil
  then show ?case by (simp add: fence_open_match_def)
next
  case (Cons c cs)
  have nm: "\<not> fence_open_match (c # cs)"
  proof
    assume m: "fence_open_match (c # cs)"
    then obtain w t where w: "list_all is_word w"
      and dec: "c # cs = CHR 0x60 # CHR 0x60 # CHR 0x60 # w @ CHR ''\<newline>'' # CHR ''\<newline>'' # t"
      by (auto simp: fence_open_match_iff)
    have "length (sub_fence_open (c # cs)) = 3 + length w + 1 + length (sub_fence_open t)"
      unfolding dec by (simp add: sub_fence_open_match [OF w])
    also have "\<dots> < length (c # cs)"
      unfolding dec using length_sub_fence_open [of t] by simp
    finally show False using Cons.prems by simp
  qed
  then have "sub_fence_open (c # cs) = c # sub_fence_open cs"
    by (rule sub_fence_open_nomatch)
  with Cons.prems have "length (sub_fence_open cs) = length cs" by simp
  with Cons.IH have "\<not> occurs fence_open_match cs" .
  with nm show ?case by simp
qed

lemma sub_fence_open_fixed_occurs:
  "\<not> occurs fence_open_match y \<Longrightarrow> sub_fence_open y = y"
  by (rule sub_fence_open_fixed) (auto simp: occurs_iff)

lemma sub_fence_close_fixed_sublist:
  "\<not> sublist ''\<newline>\<newline>```'' y \<Longrightarrow> sub_fence_close y = y"
  by (rule sub_fence_close_fixed) (auto simp: fence_close_match_def sublist_altdef')

text \<open>
  The cleanup pass leaves a text as it is exactly when none of the four patterns occurs
  in it.
\<close>

lemma post_process_fixed_iff:
  "post_process z = z \<longleftrightarrow>
     \<not> sublist ''[code]'' z \<and> \<not> sublist ''[/code]'' z
     \<and> \<not> occurs fence_open_match z \<and> \<not> sublist ''\<newline>\<newline>```'' z"
proof
  assume "\<not> sublist ''[code]'' z \<and> \<not> sublist ''[/code]'' z
     \<and> \<not> occurs fence_open_match z \<and> \<not> sublist ''\<newline>\<newline>```'' z"
  then show "post_process z = z"
    by (simp add: post_process_def sub_code_open_fixed sub_code_close_fixed
          sub_fence_open_fixed_occurs sub_fence_close_fixed_sublist)
next
  assume fx: "post_process z = z"
  define a where "a = sub_code_open z"
  define b where "b = sub_code_close a"
  define c where "c = sub_fence_open b"
  have z: "sub_fence_close c = z" using fx by (simp add: post_process_def a_def b_def c_def)
  have 1: "length a \<le> length z" unfolding a_def by (rule length_sub_code_open)
  have 2: "length b \<le> length a" unfolding b_def by (rule length_sub_code_close)
  have 3: "length c \<le> length b" unfolding c_def by (rule length_sub_fence_open)
  have 4: "length z \<le> length c" using length_sub_fence_close [of c] z by simp
  from 1 2 3 4 have la: "length a = length z" by simp
  then have no: "\<not> sublist ''[code]'' z" unfolding a_def by (rule sub_code_open_same_length)
  then have az: "a = z" unfolding a_def by (rule sub_code_open_fixed)
  from 1 2 3 4 have "length b = length a" by simp
  then have "\<not> sublist ''[/code]'' a" unfolding b_def by (rule sub_code_close_same_length)
  with az have nc: "\<not> sublist ''[/code]'' z" by simp
  then have bz: "b = z" unfolding b_def az by (rule sub_code_close_fixed)
  from 1 2 3 4 have "length c = length b" by simp
  then have "\<not> occurs fence_open_match b" unfolding c_def by (rule sub_fence_open_same_length)
  with bz have nf: "\<not> occurs fence_open_match z" by simp
  then have cz: "c = z" unfolding c_def bz by (rule sub_fence_open_fixed_occurs)
  from z cz have "length (sub_fence_close z) = length z" by simp
  then have "\<not> sublist ''\<newline>\<newline>```'' z" by (rule sub_fence_close_same_length)
  with no nc nf show "\<not> sublist ''[code]'' z \<and> \<not> sublist ''[/code]'' z
     \<and> \<not> occurs fence_open_match z \<and> \<not> sublist ''\<newline>\<newline>```'' z"
    by blast
qed

lemma occurs_after_iff:
  "occurs_after m a u \<longleftrightarrow> (\<exists>x y. u = x @ y \<and> m (a @ x) y)"
proof (induction u arbitrary: a)
  case Nil
  then show ?case by simp
next
  case (Cons c cs)
  show ?case
  proof
    assume "occurs_after m a (c # cs)"
    then have "m a (c # cs) \<or> occurs_after m (a @ [c]) cs" by simp
    then show "\<exists>x y. c # cs = x @ y \<and> m (a @ x) y"
    proof
      assume "m a (c # cs)"
      then have "c # cs = [] @ (c # cs) \<and> m (a @ []) (c # cs)" by simp
      then show ?thesis by blast
    next
      assume "occurs_after m (a @ [c]) cs"
      with Cons.IH obtain x y where "cs = x @ y" "m ((a @ [c]) @ x) y" by blast
      then have "c # cs = (c # x) @ y \<and> m (a @ (c # x)) y" by simp
      then show ?thesis by blast
    qed
  next
    assume "\<exists>x y. c # cs = x @ y \<and> m (a @ x) y"
    then obtain x y where xy: "c # cs = x @ y" and m: "m (a @ x) y" by blast
    show "occurs_after m a (c # cs)"
    proof (cases x)
      case Nil
      with xy m have "m a (c # cs)" by simp
      then show ?thesis by simp
    next
      case xc: (Cons d x')
      with xy have "cs = x' @ y" and "d = c" by simp_all
      with m xc have "cs = x' @ y \<and> m ((a @ [c]) @ x') y" by simp
      with Cons.IH have "occurs_after m (a @ [c]) cs" by blast
      then show ?thesis by simp
    qed
  qed
qed

lemma after_opening_fence_iff:
  "after_opening_fence a \<longleftrightarrow> (\<exists>a0 w. a = a0 @ ''```'' @ w \<and> list_all is_word w)"
proof
  assume "after_opening_fence a"
  then obtain a0 where a0: "rev (dropWhile is_word (rev a)) = a0 @ ''```''"
    by (auto simp: after_opening_fence_def suffix_def)
  have "rev a = takeWhile is_word (rev a) @ dropWhile is_word (rev a)" by simp
  then have "a = rev (dropWhile is_word (rev a)) @ rev (takeWhile is_word (rev a))"
    by (metis rev_append rev_rev_ident)
  with a0 have "a = a0 @ ''```'' @ rev (takeWhile is_word (rev a))" by simp
  moreover have "list_all is_word (rev (takeWhile is_word (rev a)))"
    by (auto simp: list_all_iff dest: set_takeWhileD)
  ultimately show "\<exists>a0 w. a = a0 @ ''```'' @ w \<and> list_all is_word w" by blast
next
  assume "\<exists>a0 w. a = a0 @ ''```'' @ w \<and> list_all is_word w"
  then obtain a0 w where a: "a = a0 @ ''```'' @ w" and w: "list_all is_word w" by blast
  from a have "rev a = rev w @ (''```'' @ rev a0)" by simp
  moreover from w have "dropWhile is_word (rev w @ (''```'' @ rev a0)) = ''```'' @ rev a0"
    by (simp add: dropWhile_append3 list_all_iff)
  ultimately have "rev (dropWhile is_word (rev a)) = a0 @ ''```''" by simp
  then show "after_opening_fence a" by (simp add: after_opening_fence_def suffix_def)
qed

lemma gap_after_opening_iff:
  assumes "list_all is_word w"
  shows "gap_after_opening (CHR 0x60 # CHR 0x60 # CHR 0x60 # w @ CHR ''\<newline>'' # CHR ''\<newline>'' # CHR ''\<newline>'' # t)
           \<longleftrightarrow> \<not> prefix ''```'' t"
proof -
  from assms have "dropWhile is_word (w @ ''\<newline>\<newline>\<newline>'' @ t) = ''\<newline>\<newline>\<newline>'' @ t"
    by (simp add: dropWhile_append3 list_all_iff)
  then show ?thesis by (simp add: gap_after_opening_def)
qed

lemma not_occurs_Cons: "\<not> occurs m (c # cs) \<Longrightarrow> \<not> occurs m cs"
  by simp

lemma not_occurs_append: "\<not> occurs m (a @ b) \<Longrightarrow> \<not> occurs m b"
  by (auto simp: occurs_iff suffix_append)

lemma not_occurs_here: "\<not> occurs m x \<Longrightarrow> \<not> m x"
  by (cases x) auto

lemma sub_fence_open_backtick:
  "\<exists>r. sub_fence_open (CHR 0x60 # y) = CHR 0x60 # r"
proof (cases "fence_open_match (CHR 0x60 # y)")
  case True
  then obtain w t where w: "list_all is_word w"
    and dec: "CHR 0x60 # y = CHR 0x60 # CHR 0x60 # CHR 0x60 # w @ CHR ''\<newline>'' # CHR ''\<newline>'' # t"
    by (auto simp: fence_open_match_iff)
  show ?thesis unfolding dec by (simp add: sub_fence_open_match [OF w])
next
  case False
  then show ?thesis by (simp add: sub_fence_open_nomatch)
qed

lemma sub_fence_open_match_fence:
  "fence_open_match u \<Longrightarrow> \<exists>r. sub_fence_open u = CHR 0x60 # CHR 0x60 # CHR 0x60 # r"
proof -
  assume "fence_open_match u"
  then obtain w t where w: "list_all is_word w"
    and dec: "u = CHR 0x60 # CHR 0x60 # CHR 0x60 # w @ CHR ''\<newline>'' # CHR ''\<newline>'' # t"
    by (auto simp: fence_open_match_iff)
  show ?thesis unfolding dec by (simp add: sub_fence_open_match [OF w])
qed

lemma sub_fence_open_keeps_fence:
  "\<exists>r. sub_fence_open (CHR 0x60 # CHR 0x60 # CHR 0x60 # x) = CHR 0x60 # CHR 0x60 # CHR 0x60 # r"
proof (cases "fence_open_match (CHR 0x60 # CHR 0x60 # CHR 0x60 # x)")
  case True
  then show ?thesis by (rule sub_fence_open_match_fence)
next
  case n1: False
  show ?thesis
  proof (cases "fence_open_match (CHR 0x60 # CHR 0x60 # x)")
    case True
    from sub_fence_open_match_fence [OF this] n1 show ?thesis
      by (auto simp: sub_fence_open_nomatch)
  next
    case n2: False
    from sub_fence_open_backtick [of x] obtain r where "sub_fence_open (CHR 0x60 # x) = CHR 0x60 # r"
      by blast
    with n1 n2 show ?thesis by (simp add: sub_fence_open_nomatch)
  qed
qed

lemma sub_fence_open_fence_from_input:
  assumes "sub_fence_open u = CHR 0x60 # CHR 0x60 # CHR 0x60 # t"
  shows "\<exists>x. u = CHR 0x60 # CHR 0x60 # CHR 0x60 # x"
proof (cases "fence_open_match u")
  case True
  then show ?thesis by (auto simp: fence_open_match_iff)
next
  case n1: False
  from assms obtain u1 where u: "u = CHR 0x60 # u1" using sub_fence_open_hd by blast
  with n1 assms have 1: "sub_fence_open u1 = CHR 0x60 # CHR 0x60 # t"
    by (simp add: sub_fence_open_nomatch)
  then obtain u2 where u1: "u1 = CHR 0x60 # u2" using sub_fence_open_hd by blast
  show ?thesis
  proof (cases "fence_open_match u1")
    case True
    with u u1 show ?thesis by (auto simp: fence_open_match_iff)
  next
    case False
    with u1 1 have "sub_fence_open u2 = CHR 0x60 # t" by (simp add: sub_fence_open_nomatch)
    then obtain u3 where "u2 = CHR 0x60 # u3" using sub_fence_open_hd by blast
    with u u1 show ?thesis by simp
  qed
qed

lemma fence_close_match_from_gap:
  assumes "fence_close_match (sub_fence_close r)"
  shows "prefix ''\<newline>\<newline>\<newline>```'' r"
proof -
  from assms obtain t where
    out: "sub_fence_close r = CHR ''\<newline>'' # CHR ''\<newline>'' # CHR 0x60 # CHR 0x60 # CHR 0x60 # t"
    by (auto simp: fence_close_match_iff)
  then obtain cs where r: "r = CHR ''\<newline>'' # cs" using sub_fence_close_hd by blast
  have nm: "\<not> fence_close_match r"
  proof
    assume "fence_close_match r"
    then obtain x where "r = CHR ''\<newline>'' # CHR ''\<newline>'' # CHR 0x60 # CHR 0x60 # CHR 0x60 # x"
      by (auto simp: fence_close_match_iff)
    then have "sub_fence_close r = CHR ''\<newline>'' # CHR 0x60 # CHR 0x60 # CHR 0x60 # sub_fence_close x"
      by (simp add: sub_fence_close_match)
    with out show False by simp
  qed
  with r out have 1: "sub_fence_close cs = CHR ''\<newline>'' # CHR 0x60 # CHR 0x60 # CHR 0x60 # t"
    by (simp add: sub_fence_close_nomatch)
  then obtain cs2 where cs: "cs = CHR ''\<newline>'' # cs2" using sub_fence_close_hd by blast
  show ?thesis
  proof (cases "fence_close_match cs")
    case True
    with r show ?thesis by (auto simp: fence_close_match_iff)
  next
    case False
    with cs 1 have "sub_fence_close cs2 = ''```'' @ t" by (simp add: sub_fence_close_nomatch)
    moreover have "CHR ''\<newline>'' \<notin> set ''```''" by simp
    ultimately obtain t' where "cs2 = ''```'' @ t'" using sub_fence_close_transfer by blast
    with r cs have "fence_close_match r" by (simp add: fence_close_match_iff)
    with nm show ?thesis by blast
  qed
qed

lemma fence_open_match_from_loose:
  assumes "fence_open_match (sub_fence_close r)"
  shows "\<exists>w cs2. list_all is_word w
           \<and> r = CHR 0x60 # CHR 0x60 # CHR 0x60 # w @ CHR ''\<newline>'' # CHR ''\<newline>'' # cs2
           \<and> \<not> prefix ''```'' cs2"
proof -
  from assms obtain w t where w: "list_all is_word w"
    and out: "sub_fence_close r = (''```'' @ w) @ CHR ''\<newline>'' # CHR ''\<newline>'' # t"
    by (auto simp: fence_open_match_iff)
  from w have "CHR ''\<newline>'' \<notin> set (''```'' @ w)" by (auto dest: word_not_newline)
  from sub_fence_close_transfer [OF this out] obtain r' where
    r: "r = (''```'' @ w) @ r'" and r': "sub_fence_close r' = CHR ''\<newline>'' # CHR ''\<newline>'' # t"
    by blast
  from r' obtain cs where cs: "r' = CHR ''\<newline>'' # cs"
    using sub_fence_close_hd by blast
  have nm: "\<not> fence_close_match r'"
  proof
    assume "fence_close_match r'"
    then obtain x where "r' = CHR ''\<newline>'' # CHR ''\<newline>'' # CHR 0x60 # CHR 0x60 # CHR 0x60 # x"
      by (auto simp: fence_close_match_iff)
    then have "sub_fence_close r' = CHR ''\<newline>'' # CHR 0x60 # CHR 0x60 # CHR 0x60 # sub_fence_close x"
      by (simp add: sub_fence_close_match)
    with r' show False by simp
  qed
  with cs r' have "sub_fence_close cs = CHR ''\<newline>'' # t" by (simp add: sub_fence_close_nomatch)
  then obtain cs2 where cs2: "cs = CHR ''\<newline>'' # cs2" using sub_fence_close_hd by blast
  have "\<not> prefix ''```'' cs2"
  proof
    assume "prefix ''```'' cs2"
    then obtain x where "cs2 = ''```'' @ x" by (auto simp: prefix_def)
    with cs cs2 have "fence_close_match r'" by (simp add: fence_close_match_iff)
    with nm show False by blast
  qed
  moreover from r cs cs2 have "r = CHR 0x60 # CHR 0x60 # CHR 0x60 # w @ CHR ''\<newline>'' # CHR ''\<newline>'' # cs2"
    by simp
  ultimately show ?thesis using w by blast
qed

lemma word_run_unique:
  assumes "list_all is_word w" "list_all is_word w'"
    and "w @ CHR ''\<newline>'' # a = w' @ CHR ''\<newline>'' # b"
  shows "w = w' \<and> a = b"
proof -
  from assms(1) have "takeWhile is_word (w @ CHR ''\<newline>'' # a) = w"
    by (simp add: list_all_iff)
  moreover from assms(2) have "takeWhile is_word (w' @ CHR ''\<newline>'' # b) = w'"
    by (simp add: list_all_iff)
  ultimately have "w = w'" using assms(3) by simp
  with assms(3) show ?thesis by simp
qed

lemma sub_fence_open_newline:
  "sub_fence_open (CHR ''\<newline>'' # x) = CHR ''\<newline>'' # sub_fence_open x"
  by (rule sub_fence_open_nomatch) (auto dest: fence_open_match_backtick)

text \<open>
  When every opening fence that is followed by three line breaks is followed by a fence
  at once, a match of the opening pattern in the output of the pass has a fence after
  its two line breaks.
\<close>

lemma open_match_in_output:
  "\<not> occurs gap_after_opening x \<Longrightarrow> suffix r (sub_fence_open x) \<Longrightarrow> list_all is_word w \<Longrightarrow>
   r = CHR 0x60 # CHR 0x60 # CHR 0x60 # w @ CHR ''\<newline>'' # CHR ''\<newline>'' # t \<Longrightarrow>
   prefix ''```'' t"
proof (induction x arbitrary: r w t rule: sub_fence_open.induct)
  case 1
  then show ?case by simp
next
  case (2 c cs)
  note r = "2.prems"(4)
  note w = "2.prems"(3)
  have mr: "fence_open_match r" unfolding r using w by (auto simp: fence_open_match_iff)
  show ?case
  proof (cases "fence_open_match (c # cs)")
    case False
    then have out: "sub_fence_open (c # cs) = c # sub_fence_open cs"
      by (rule sub_fence_open_nomatch)
    with "2.prems"(2) have "r = sub_fence_open (c # cs) \<or> suffix r (sub_fence_open cs)"
      by (simp add: suffix_Cons)
    then show ?thesis
    proof
      assume "r = sub_fence_open (c # cs)"
      with mr fence_open_match_sub_fence_open have "fence_open_match (c # cs)" by blast
      with False show ?thesis by blast
    next
      assume "suffix r (sub_fence_open cs)"
      from "2.IH"(2) [OF False not_occurs_Cons [OF "2.prems"(1)] this w r] show ?thesis .
    qed
  next
    case True
    define w0 where "w0 = takeWhile is_word (drop 3 (c # cs))"
    define rest where "rest = drop 2 (dropWhile is_word (drop 3 (c # cs)))"
    have dec: "c # cs = ''```'' @ w0 @ ''\<newline>\<newline>'' @ rest"
      unfolding w0_def rest_def by (rule fence_open_match_decomp [OF True])
    have w0: "list_all is_word w0"
      unfolding w0_def by (auto simp: list_all_iff dest: set_takeWhileD)
    have out: "sub_fence_open (c # cs)
        = CHR 0x60 # CHR 0x60 # CHR 0x60 # (w0 @ CHR ''\<newline>'' # sub_fence_open rest)"
      by (subst dec) (simp add: sub_fence_open_match [OF w0])
    have nrest: "\<not> occurs gap_after_opening rest"
    proof -
      from dec have "c # cs = (''```'' @ w0 @ ''\<newline>\<newline>'') @ rest" by simp
      with "2.prems"(1) show ?thesis using not_occurs_append by metis
    qed
    from "2.prems"(2) out consider
        (whole) "r = CHR 0x60 # CHR 0x60 # CHR 0x60 # (w0 @ CHR ''\<newline>'' # sub_fence_open rest)"
      | (two) "r = CHR 0x60 # CHR 0x60 # (w0 @ CHR ''\<newline>'' # sub_fence_open rest)"
      | (one) "r = CHR 0x60 # (w0 @ CHR ''\<newline>'' # sub_fence_open rest)"
      | (inw) v where "suffix v w0" "r = v @ CHR ''\<newline>'' # sub_fence_open rest"
      | (nl) "r = CHR ''\<newline>'' # sub_fence_open rest"
      | (tail) "suffix r (sub_fence_open rest)"
      by (auto simp: suffix_Cons suffix_append)
    then show ?thesis
    proof cases
      case whole
      with r have "w @ CHR ''\<newline>'' # CHR ''\<newline>'' # t = w0 @ CHR ''\<newline>'' # sub_fence_open rest"
        by simp
      from word_run_unique [OF w w0 this] have ww: "w = w0"
        and t: "CHR ''\<newline>'' # t = sub_fence_open rest" by simp_all
      from t obtain rest1 where rest1: "rest = CHR ''\<newline>'' # rest1"
        using sub_fence_open_hd [of rest "CHR ''\<newline>''" t] by auto
      with t have t1: "t = sub_fence_open rest1" by (simp add: sub_fence_open_newline)
      from dec rest1 have x: "c # cs = CHR 0x60 # CHR 0x60 # CHR 0x60 # w0
          @ CHR ''\<newline>'' # CHR ''\<newline>'' # CHR ''\<newline>'' # rest1" by simp
      from not_occurs_here [OF "2.prems"(1)] have "\<not> gap_after_opening (c # cs)" .
      then have "prefix ''```'' rest1"
        unfolding x by (simp only: gap_after_opening_iff [OF w0] not_not)
      then obtain y where "rest1 = CHR 0x60 # CHR 0x60 # CHR 0x60 # y" by (auto simp: prefix_def)
      with sub_fence_open_keeps_fence [of y] t1 show ?thesis by auto
    next
      case two
      with r have "w0 @ CHR ''\<newline>'' # sub_fence_open rest
          = CHR 0x60 # w @ CHR ''\<newline>'' # CHR ''\<newline>'' # t" by simp
      with word_newline_not_backtick [OF w0] show ?thesis by blast
    next
      case one
      with r have "w0 @ CHR ''\<newline>'' # sub_fence_open rest
          = CHR 0x60 # CHR 0x60 # w @ CHR ''\<newline>'' # CHR ''\<newline>'' # t" by simp
      with word_newline_not_backtick [OF w0] show ?thesis by blast
    next
      case inw
      from inw(1) w0 have "list_all is_word v" by (auto simp: suffix_def)
      moreover from inw(2) r have "v @ CHR ''\<newline>'' # sub_fence_open rest
          = CHR 0x60 # CHR 0x60 # CHR 0x60 # w @ CHR ''\<newline>'' # CHR ''\<newline>'' # t" by simp
      ultimately show ?thesis using word_newline_not_backtick by blast
    next
      case nl
      with r show ?thesis by simp
    next
      case tail
      have "suffix r (sub_fence_open (drop 2 (dropWhile is_word (drop 3 (c # cs)))))"
        using tail unfolding rest_def .
      moreover have "\<not> occurs gap_after_opening (drop 2 (dropWhile is_word (drop 3 (c # cs))))"
        using nrest unfolding rest_def .
      ultimately show ?thesis using "2.IH"(1) [OF True _ _ w r] by blast
    qed
  qed
qed

text \<open>
  When moreover three line breaks before a fence occur only right after an opening
  fence, the output of the pass has no three line breaks before a fence.
\<close>

lemma no_gap_before_closing_in_output:
  "\<not> occurs gap_after_opening x \<Longrightarrow>
   (\<And>a b. x = a @ ''\<newline>\<newline>\<newline>```'' @ b \<Longrightarrow> after_opening_fence a) \<Longrightarrow>
   \<not> sublist ''\<newline>\<newline>\<newline>```'' (sub_fence_open x)"
proof (induction x rule: sub_fence_open.induct)
  case 1
  then show ?case by simp
next
  case (2 c cs)
  note e2 = "2.prems"(1)
  note e3 = "2.prems"(2)
  show ?case
  proof (cases "fence_open_match (c # cs)")
    case False
    then have out: "sub_fence_open (c # cs) = c # sub_fence_open cs"
      by (rule sub_fence_open_nomatch)
    have e3cs: "after_opening_fence a" if cs: "cs = a @ ''\<newline>\<newline>\<newline>```'' @ b" for a b
    proof -
      from cs have "c # cs = (c # a) @ ''\<newline>\<newline>\<newline>```'' @ b" by simp
      from e3 [OF this] obtain a0 w where a0: "c # a = a0 @ ''```'' @ w" and w: "list_all is_word w"
        by (auto simp: after_opening_fence_iff)
      show ?thesis
      proof (cases a0)
        case Nil
        with a0 cs have "c # cs = CHR 0x60 # CHR 0x60 # CHR 0x60 # w
            @ CHR ''\<newline>'' # CHR ''\<newline>'' # (''\<newline>```'' @ b)" by simp
        with w have "fence_open_match (c # cs)" unfolding fence_open_match_iff by blast
        with False show ?thesis by blast
      next
        case (Cons d a0')
        with a0 have "a = a0' @ ''```'' @ w" by simp
        with w show ?thesis unfolding after_opening_fence_iff by blast
      qed
    qed
    have ih: "\<not> sublist ''\<newline>\<newline>\<newline>```'' (sub_fence_open cs)"
      using "2.IH"(2) [OF False not_occurs_Cons [OF e2]] e3cs by blast
    show ?thesis
    proof
      assume "sublist ''\<newline>\<newline>\<newline>```'' (sub_fence_open (c # cs))"
      then have "sublist ''\<newline>\<newline>\<newline>```'' (c # sub_fence_open cs)"
        by (simp only: out)
      then have "prefix ''\<newline>\<newline>\<newline>```'' (c # sub_fence_open cs)
          \<or> sublist ''\<newline>\<newline>\<newline>```'' (sub_fence_open cs)"
        by (simp only: sublist_Cons_right)
      with ih have "prefix ''\<newline>\<newline>\<newline>```'' (c # sub_fence_open cs)" by blast
      then have "prefix ''\<newline>\<newline>\<newline>```'' (sub_fence_open (c # cs))"
        by (simp only: out)
      then obtain t where "sub_fence_open (c # cs) = ''\<newline>\<newline>\<newline>'' @ (''```'' @ t)"
        by (auto simp: prefix_def)
      moreover have "CHR 0x60 \<notin> set ''\<newline>\<newline>\<newline>''" by simp
      ultimately obtain x' where x': "c # cs = ''\<newline>\<newline>\<newline>'' @ x'"
        and "sub_fence_open x' = ''```'' @ t"
        using sub_fence_open_transfer by blast
      then obtain x'' where "x' = ''```'' @ x''"
        using sub_fence_open_fence_from_input [of x' t] by auto
      with x' have "c # cs = [] @ ''\<newline>\<newline>\<newline>```'' @ x''" by simp
      from e3 [OF this] show False by (simp add: after_opening_fence_iff)
    qed
  next
    case True
    define w0 where "w0 = takeWhile is_word (drop 3 (c # cs))"
    define rest where "rest = drop 2 (dropWhile is_word (drop 3 (c # cs)))"
    have dec: "c # cs = ''```'' @ w0 @ ''\<newline>\<newline>'' @ rest"
      unfolding w0_def rest_def by (rule fence_open_match_decomp [OF True])
    have w0: "list_all is_word w0"
      unfolding w0_def by (auto simp: list_all_iff dest: set_takeWhileD)
    have out: "sub_fence_open (c # cs)
        = CHR 0x60 # CHR 0x60 # CHR 0x60 # (w0 @ CHR ''\<newline>'' # sub_fence_open rest)"
      by (subst dec) (simp add: sub_fence_open_match [OF w0])
    have nrest: "\<not> occurs gap_after_opening rest"
    proof -
      from dec have "c # cs = (''```'' @ w0 @ ''\<newline>\<newline>'') @ rest" by simp
      with e2 show ?thesis using not_occurs_append by metis
    qed
    have e3rest: "after_opening_fence a" if rest: "rest = a @ ''\<newline>\<newline>\<newline>```'' @ b" for a b
    proof -
      define pre where "pre = ''```'' @ w0 @ ''\<newline>\<newline>''"
      from rest dec have "c # cs = (pre @ a) @ ''\<newline>\<newline>\<newline>```'' @ b" by (simp add: pre_def)
      from e3 [OF this] obtain a0 w where eq: "pre @ a = a0 @ (''```'' @ w)" and w: "list_all is_word w"
        by (auto simp: after_opening_fence_iff)
      from eq obtain us where
        "(pre = a0 @ us \<and> us @ a = ''```'' @ w) \<or> (pre @ us = a0 \<and> a = us @ (''```'' @ w))"
        unfolding append_eq_append_conv2 by blast
      then show ?thesis
      proof
        assume "pre @ us = a0 \<and> a = us @ (''```'' @ w)"
        with w show ?thesis unfolding after_opening_fence_iff by auto
      next
        assume h: "pre = a0 @ us \<and> us @ a = ''```'' @ w"
        show ?thesis
        proof (cases "us = []")
          case True
          with h have "a = [] @ ''```'' @ w" by simp
          with w show ?thesis unfolding after_opening_fence_iff by blast
        next
          case False
          with h have "last us = last pre" by simp
          then have "last us = CHR ''\<newline>''" by (simp add: pre_def)
          with False have "CHR ''\<newline>'' \<in> set us" using last_in_set by metis
          then have "CHR ''\<newline>'' \<in> set (us @ a)" by simp
          with h have "CHR ''\<newline>'' \<in> set (''```'' @ w)" by simp
          with w show ?thesis by (auto dest: word_not_newline)
        qed
      qed
    qed
    have ih: "\<not> sublist ''\<newline>\<newline>\<newline>```'' (sub_fence_open rest)"
    proof -
      have "\<not> occurs gap_after_opening (drop 2 (dropWhile is_word (drop 3 (c # cs))))"
        using nrest unfolding rest_def .
      moreover have "after_opening_fence a"
        if "drop 2 (dropWhile is_word (drop 3 (c # cs))) = a @ ''\<newline>\<newline>\<newline>```'' @ b" for a b
        using that e3rest unfolding rest_def by blast
      ultimately have "\<not> sublist ''\<newline>\<newline>\<newline>```''
          (sub_fence_open (drop 2 (dropWhile is_word (drop 3 (c # cs)))))"
        using "2.IH"(1) [OF True] by blast
      then show ?thesis unfolding rest_def .
    qed
    show ?thesis
    proof
      assume "sublist ''\<newline>\<newline>\<newline>```'' (sub_fence_open (c # cs))"
      with out have "sublist ''\<newline>\<newline>\<newline>```''
          (CHR 0x60 # CHR 0x60 # CHR 0x60 # (w0 @ CHR ''\<newline>'' # sub_fence_open rest))"
        by simp
      then have "sublist ''\<newline>\<newline>\<newline>```'' (w0 @ CHR ''\<newline>'' # sub_fence_open rest)"
        by (simp add: sublist_Cons_right)
      then consider (inw) "sublist ''\<newline>\<newline>\<newline>```'' w0"
        | (tail) "sublist ''\<newline>\<newline>\<newline>```'' (CHR ''\<newline>'' # sub_fence_open rest)"
        | (cross) s1 s2 where "''\<newline>\<newline>\<newline>```'' = s1 @ s2" "suffix s1 w0" "s1 \<noteq> []"
        by (auto simp: sublist_append) (metis append_Nil prefix_imp_sublist)
      then show False
      proof cases
        case inw
        then have "set ''\<newline>\<newline>\<newline>```'' \<subseteq> set w0" by (rule set_mono_sublist)
        with w0 show False by (auto dest: word_not_newline)
      next
        case cross
        from cross(1,3) have "hd s1 = CHR ''\<newline>''" by (cases s1) auto
        with cross(3) have "CHR ''\<newline>'' \<in> set s1" using hd_in_set by metis
        with cross(2) have "CHR ''\<newline>'' \<in> set w0" by (auto simp: suffix_def)
        with w0 show False by (auto dest: word_not_newline)
      next
        case tail
        then have "prefix ''\<newline>\<newline>\<newline>```'' (CHR ''\<newline>'' # sub_fence_open rest)
            \<or> sublist ''\<newline>\<newline>\<newline>```'' (sub_fence_open rest)"
          by (simp only: sublist_Cons_right)
        with ih have "prefix ''\<newline>\<newline>\<newline>```'' (CHR ''\<newline>'' # sub_fence_open rest)"
          by blast
        then obtain t where "sub_fence_open rest = ''\<newline>\<newline>'' @ (''```'' @ t)"
          by (auto simp: prefix_def)
        moreover have "CHR 0x60 \<notin> set ''\<newline>\<newline>''" by simp
        ultimately obtain r2 where r2: "rest = ''\<newline>\<newline>'' @ r2"
          and "sub_fence_open r2 = ''```'' @ t"
          using sub_fence_open_transfer by blast
        then obtain x'' where "r2 = ''```'' @ x''"
          using sub_fence_open_fence_from_input [of r2 t] by auto
        with r2 dec have x: "c # cs = CHR 0x60 # CHR 0x60 # CHR 0x60 # w0
            @ CHR ''\<newline>'' # CHR ''\<newline>'' # CHR ''\<newline>'' # (CHR ''\<newline>'' # ''```'' @ x'')" by simp
        have "gap_after_opening (c # cs)"
          unfolding x by (simp only: gap_after_opening_iff [OF w0]) simp
        with not_occurs_here [OF e2] show False by blast
      qed
    qed
  qed
qed

text \<open>The cleanup pass leaves its output as it is when the text it works on is settled.\<close>

lemma post_process_settled:
  assumes s1: "\<not> sublist ''[code]'' s" and s2: "\<not> sublist ''[/code]'' s"
    and e2: "\<not> occurs gap_after_opening s"
    and e3: "\<not> occurs_after gap_before_closing [] s"
  shows "post_process (sub_fence_close (sub_fence_open s)) = sub_fence_close (sub_fence_open s)"
proof -
  define y where "y = sub_fence_open s"
  define z where "z = sub_fence_close y"
  have "\<not> sublist ''[code]'' y" unfolding y_def
    by (rule sub_fence_open_no_marker) (use s1 in simp_all)
  then have zo: "\<not> sublist ''[code]'' z" unfolding z_def
    by (intro sub_fence_close_no_marker) simp_all
  have "\<not> sublist ''[/code]'' y" unfolding y_def
    by (rule sub_fence_open_no_marker) (use s2 in simp_all)
  then have zc: "\<not> sublist ''[/code]'' z" unfolding z_def
    by (intro sub_fence_close_no_marker) simp_all
  have e3': "after_opening_fence a" if "s = a @ ''\<newline>\<newline>\<newline>```'' @ b" for a b
  proof (rule ccontr)
    assume "\<not> after_opening_fence a"
    then have "gap_before_closing ([] @ a) (''\<newline>\<newline>\<newline>```'' @ b)"
      by (simp add: gap_before_closing_def)
    with that have "occurs_after gap_before_closing [] s" unfolding occurs_after_iff by blast
    with e3 show False by blast
  qed
  have ny: "\<not> sublist ''\<newline>\<newline>\<newline>```'' y"
    unfolding y_def using e2 e3' by (rule no_gap_before_closing_in_output)
  have zf: "\<not> occurs fence_open_match z"
  proof
    assume "occurs fence_open_match z"
    then obtain u where u: "suffix u z" and m: "fence_open_match u" by (auto simp: occurs_iff)
    from sub_fence_close_suffix [OF u [unfolded z_def]] obtain r where
      r: "suffix r y" and ur: "u = sub_fence_close r" by blast
    from m ur fence_open_match_from_loose [of r] obtain w cs2 where w: "list_all is_word w"
      and dec: "r = CHR 0x60 # CHR 0x60 # CHR 0x60 # w @ CHR ''\<newline>'' # CHR ''\<newline>'' # cs2"
      and np: "\<not> prefix ''```'' cs2" by blast
    from open_match_in_output [OF e2 r [unfolded y_def] w dec] np show False by blast
  qed
  have zg: "\<not> sublist ''\<newline>\<newline>```'' z"
  proof
    assume "sublist ''\<newline>\<newline>```'' z"
    then obtain u where u: "suffix u z" and p: "prefix ''\<newline>\<newline>```'' u"
      by (auto simp: sublist_altdef')
    from sub_fence_close_suffix [OF u [unfolded z_def]] obtain r where
      r: "suffix r y" and ur: "u = sub_fence_close r" by blast
    from p ur have "fence_close_match (sub_fence_close r)" by (simp add: fence_close_match_def)
    then have "prefix ''\<newline>\<newline>\<newline>```'' r" by (rule fence_close_match_from_gap)
    with r have "sublist ''\<newline>\<newline>\<newline>```'' y" unfolding sublist_altdef' by blast
    with ny show False by blast
  qed
  from zo zc zf zg have "post_process z = z" unfolding post_process_fixed_iff by blast
  then show ?thesis unfolding z_def y_def .
qed

text \<open>
  C1, amended. A second run of the cleanup pass changes nothing exactly when none of the
  four patterns occurs in what the first run returned. This is so on every text that
  is settled once the two marker substitutions have been applied to it: neither marker
  is left in it or has been put together by the removal of another, and two blank lines
  or more stand neither after an opening fence nor before a fence, except between the
  two fences of an empty block. On such a text, applying the pass twice gives the same
  result as applying it once.
\<close>

theorem post_process_idempotent_when_settled:
  "(post_process (post_process t) = post_process t \<longleftrightarrow>
      \<not> sublist ''[code]'' (post_process t) \<and> \<not> sublist ''[/code]'' (post_process t)
      \<and> \<not> occurs fence_open_match (post_process t)
      \<and> \<not> sublist ''\<newline>\<newline>```'' (post_process t))
   \<and> (\<not> sublist ''[code]'' (sub_code_close (sub_code_open t))
      \<and> \<not> sublist ''[/code]'' (sub_code_close (sub_code_open t))
      \<and> \<not> occurs gap_after_opening (sub_code_close (sub_code_open t))
      \<and> \<not> occurs_after gap_before_closing [] (sub_code_close (sub_code_open t))
      \<longrightarrow> post_process (post_process t) = post_process t)"
proof (intro conjI impI)
  show "post_process (post_process t) = post_process t \<longleftrightarrow>
      \<not> sublist ''[code]'' (post_process t) \<and> \<not> sublist ''[/code]'' (post_process t)
      \<and> \<not> occurs fence_open_match (post_process t)
      \<and> \<not> sublist ''\<newline>\<newline>```'' (post_process t)"
    by (rule post_process_fixed_iff)
next
  assume h: "\<not> sublist ''[code]'' (sub_code_close (sub_code_open t))
      \<and> \<not> sublist ''[/code]'' (sub_code_close (sub_code_open t))
      \<and> \<not> occurs gap_after_opening (sub_code_close (sub_code_open t))
      \<and> \<not> occurs_after gap_before_closing [] (sub_code_close (sub_code_open t))"
  have "post_process t = sub_fence_close (sub_fence_open (sub_code_close (sub_code_open t)))"
    by (simp add: post_process_def)
  moreover from h
  have "post_process (sub_fence_close (sub_fence_open (sub_code_close (sub_code_open t))))
      = sub_fence_close (sub_fence_open (sub_code_close (sub_code_open t)))"
    by (intro post_process_settled) simp_all
  ultimately show "post_process (post_process t) = post_process t" by (simp only:)
qed

text \<open>
  Two texts with markers in them: a page with a fenced block between two blank lines,
  and an empty block with two blank lines between its fences.
\<close>

theorem post_process_idempotent_when_settled_witness:
  "post_process (post_process ''# Title\<newline>\<newline>[code]```py\<newline>\<newline>x = 1\<newline>\<newline>```[/code]\<newline>'')
     = post_process ''# Title\<newline>\<newline>[code]```py\<newline>\<newline>x = 1\<newline>\<newline>```[/code]\<newline>''
   \<and> post_process ''# Title\<newline>\<newline>[code]```py\<newline>\<newline>x = 1\<newline>\<newline>```[/code]\<newline>''
       = ''# Title\<newline>```py\<newline>x = 1\<newline>```\<newline>''
   \<and> post_process (post_process ''[code] ```sh\<newline>\<newline>\<newline>``` [/code]'')
       = post_process ''[code] ```sh\<newline>\<newline>\<newline>``` [/code]''
   \<and> post_process ''[code] ```sh\<newline>\<newline>\<newline>``` [/code]'' = ''```sh\<newline>```''"
proof -
  let ?t = "''# Title\<newline>\<newline>[code]```py\<newline>\<newline>x = 1\<newline>\<newline>```[/code]\<newline>''"
  let ?u = "''[code] ```sh\<newline>\<newline>\<newline>``` [/code]''"
  have t: "\<not> sublist ''[code]'' (sub_code_close (sub_code_open ?t))
      \<and> \<not> sublist ''[/code]'' (sub_code_close (sub_code_open ?t))
      \<and> \<not> occurs gap_after_opening (sub_code_close (sub_code_open ?t))
      \<and> \<not> occurs_after gap_before_closing [] (sub_code_close (sub_code_open ?t))"
    by code_simp
  have u: "\<not> sublist ''[code]'' (sub_code_close (sub_code_open ?u))
      \<and> \<not> sublist ''[/code]'' (sub_code_close (sub_code_open ?u))
      \<and> \<not> occurs gap_after_opening (sub_code_close (sub_code_open ?u))
      \<and> \<not> occurs_after gap_before_closing [] (sub_code_close (sub_code_open ?u))"
    by code_simp
  have pt: "post_process ?t = ''# Title\<newline>```py\<newline>x = 1\<newline>```\<newline>''" by code_simp
  have pu: "post_process ?u = ''```sh\<newline>```''" by code_simp
  from post_process_idempotent_when_settled [of ?t] t
  have 1: "post_process (post_process ?t) = post_process ?t" by blast
  from post_process_idempotent_when_settled [of ?u] u
  have 2: "post_process (post_process ?u) = post_process ?u" by blast
  from 1 pt 2 pu show ?thesis by blast
qed

end
